theory Spec2Isabelle
  imports Complex_Main
begin

unbundle bit_operations_syntax

section \<open>GRASP for the capacitated single-item lot-sizing problem\<close>

text \<open>
  A shallow embedding of \<^verbatim>\<open>solvers/grasp_csilsp.py\<close>: the decoder
  \<^verbatim>\<open>decode_solution\<close>, the constructor
  \<^verbatim>\<open>greedy_randomized_construction\<close>, the hill climber
  \<^verbatim>\<open>local_search\<close> and the driver \<^verbatim>\<open>grasp\<close>.

  Conventions of the embedding.
  \<^item> Python floats are idealised as exact reals (\<^typ>\<open>real\<close>): rounding, infinities
    and NaN are outside the model. The concrete inputs evaluated below are chosen so
    that rounding changes no comparison the source makes on them. A theorem whose
    statement depends on a comparison of computed numbers carries the hypotheses under
    which the source's doubles compute what the reals do (\<open>integral\<close> data within
    \<open>2^52\<close>, where every sum, difference and minimum of the decoder is exact); a
    theorem that the constructor or the driver returns carries the hypothesis that
    keeps the source's doubles finite (\<open>moderate\<close> data).
  \<^item> Setup vectors are lists of Python integers (\<^typ>\<open>int list\<close>); the source tests
    \<^verbatim>\<open>y[t] == 1\<close>, multiplies by \<^verbatim>\<open>y[t]\<close> and flips with \<^verbatim>\<open>y[t] ^= 1\<close>.
  \<^item> A list read out of range raises \<^verbatim>\<open>IndexError\<close> in Python, and a float
    division by zero raises \<^verbatim>\<open>ZeroDivisionError\<close>; both are values of the
    model (\<open>Inl\<close> of a sum type).
  \<^item> \<^verbatim>\<open>for t in range(...)\<close> is a recursion over the list of the indices
    visited, in the order visited.
  \<^item> \<^verbatim>\<open>time.time()\<close> and \<^verbatim>\<open>random.choice\<close> are oracles: the \<open>k\<close>-th
    reading of the clock is \<open>clk k\<close>, the \<open>k\<close>-th draw picks position
    \<open>rnd k mod n\<close> of a sequence of length \<open>n\<close>; the number of readings and of draws
    made so far is threaded through the code as state.
\<close>

subsection \<open>Constants and errors\<close>

datatype py_error = IndexError | ZeroDivisionError

definition BIGM :: real where
  "BIGM = 10 ^ 15"

definition PENALTY :: real where
  "PENALTY = 10 ^ 6"

text \<open>The tolerance \<^verbatim>\<open>1e-6\<close> of the decoder and of the capacity filter.\<close>

definition TOL :: real where
  "TOL = 1 / 10 ^ 6"

text \<open>
  Two ranges of instance data. The instances that the repository's generator writes
  are integer-valued; on integer-valued demand and capacity with a total demand of at
  most \<open>2^52\<close> every number the two passes of the decoder compute is an integer of
  magnitude at most \<open>2^53\<close>, which a double holds exactly, so the source's floats
  and the reals of this embedding take the same branches. On data of magnitude at most
  \<open>2^100\<close> no sum, product or quotient of the constructor leaves the range of
  the finite doubles (near the largest double an average cost overflows to
  \<^verbatim>\<open>inf\<close>, the threshold becomes \<^verbatim>\<open>nan\<close>, the candidate list is empty and
  \<^verbatim>\<open>random.choice\<close> raises).
\<close>

definition integral :: "real list \<Rightarrow> bool" where
  "integral xs \<longleftrightarrow> (\<forall>x\<in>set xs. x \<in> \<int>)"

definition moderate :: "real list \<Rightarrow> bool" where
  "moderate xs \<longleftrightarrow> (\<forall>x\<in>set xs. \<bar>x\<bar> \<le> 2 ^ 100)"

subsection \<open>The decoder\<close>

text \<open>
  The backward loop \<^verbatim>\<open>for t in range(T - 1, -1, -1)\<close>: the state is the production
  list \<open>X\<close> and the remaining demand \<open>R\<close>. \<^verbatim>\<open>d[t]\<close> is in range (\<open>t < len(d)\<close>);
  \<^verbatim>\<open>y[t]\<close> and \<^verbatim>\<open>C[t]\<close> may raise. The sum and the difference are exact here; the
  source rounds them to doubles, which changes nothing on \<open>integral\<close> data within
  \<open>2^52\<close>.
\<close>

fun backward :: "int list \<Rightarrow> real list \<Rightarrow> real list \<Rightarrow> nat list \<Rightarrow> real list \<times> real
    \<Rightarrow> py_error + (real list \<times> real)" where
  "backward y d C [] (X, R) = Inr (X, R)"
| "backward y d C (t # ts) (X, R) =
     (if length y \<le> t then Inl IndexError
      else let R1 = R + d ! t in
        if y ! t = 1 then
          (if length C \<le> t then Inl IndexError
           else let x_t = min (C ! t) R1 in backward y d C ts (X[t := x_t], R1 - x_t))
        else backward y d C ts (X, R1))"

text \<open>
  The forward loop \<^verbatim>\<open>for t in range(T)\<close> of the inventory balance. It leaves early
  with the offending balance (\<open>Inl inv1\<close>) or ends with the inventory list (\<open>Inr I\<close>);
  \<open>inv0\<close> is the balance \<^verbatim>\<open>inv\<close> before the period, \<open>inv1\<close> after it. The balance
  is exact here and rounded in the source, as in the backward loop.
\<close>

fun forward :: "real list \<Rightarrow> real list \<Rightarrow> nat list \<Rightarrow> real list \<times> real \<Rightarrow> real + real list" where
  "forward X d [] (I, inv0) = Inr I"
| "forward X d (t # ts) (I, inv0) =
     (let inv1 = inv0 + X ! t - d ! t in
      if inv1 < - TOL then Inl inv1
      else forward X d ts (I[t := inv1], inv1))"

text \<open>The cost loop; \<^verbatim>\<open>s[t]\<close>, \<^verbatim>\<open>p[t]\<close> and \<^verbatim>\<open>h[t]\<close> may raise.\<close>

fun cost_loop :: "int list \<Rightarrow> real list \<Rightarrow> real list \<Rightarrow> real list \<Rightarrow> real list \<Rightarrow> real list
    \<Rightarrow> nat list \<Rightarrow> real \<Rightarrow> py_error + real" where
  "cost_loop y s p h X I [] cost = Inr cost"
| "cost_loop y s p h X I (t # ts) cost =
     (if length s \<le> t \<or> length y \<le> t \<or> length p \<le> t \<or> length h \<le> t then Inl IndexError
      else cost_loop y s p h X I ts
             (cost + (s ! t * real_of_int (y ! t) + p ! t * X ! t + h ! t * I ! t)))"

text \<open>
  \<^verbatim>\<open>decode_solution(y, d, C, s, p, h)\<close>. Every call in the repository leaves the
  keyword arguments \<^verbatim>\<open>bigM\<close> and \<^verbatim>\<open>penalty\<close> at their defaults \<open>BIGM\<close> and
  \<open>PENALTY\<close>. The result is \<open>(X, I, cost)\<close> with \<open>None\<close> for Python's \<^verbatim>\<open>None\<close>.
\<close>

definition decode_solution :: "int list \<Rightarrow> real list \<Rightarrow> real list \<Rightarrow> real list \<Rightarrow> real list
    \<Rightarrow> real list \<Rightarrow> py_error + (real list option \<times> real list option \<times> real)" where
  "decode_solution y d C s p h =
     (let T = length d in
      case backward y d C (rev [0..<T]) (replicate T 0, 0) of
        Inl e \<Rightarrow> Inl e
      | Inr (X, R) \<Rightarrow>
          if R > TOL then Inr (None, None, BIGM + R * PENALTY)
          else (case forward X d [0..<T] (replicate T 0, 0) of
                  Inl inv1 \<Rightarrow> Inr (None, None, BIGM + \<bar>inv1\<bar> * PENALTY)
                | Inr I \<Rightarrow>
                    (case cost_loop y s p h X I [0..<T] 0 of
                       Inl e \<Rightarrow> Inl e
                     | Inr cost \<Rightarrow> Inr (Some X, Some I, cost))))"

text \<open>The cost component of a result, as \<^verbatim>\<open>_, _, cost = decode_solution(...)\<close> reads it.\<close>

definition cost_of :: "real list option \<times> real list option \<times> real \<Rightarrow> real" where
  "cost_of r = snd (snd r)"


subsection \<open>The decoder in the words of the specification\<close>

text \<open>
  Backward pass: a counter \<open>R\<close> of the demand still to cover starts at 0 and the periods
  are visited from the last to the first; at period \<open>t\<close> the demand \<open>d[t]\<close> is added to
  \<open>R\<close>, and a period with a setup produces \<open>X[t] = min(C[t], R)\<close>, which is subtracted
  from \<open>R\<close>; a period without one produces 0. The result is the plan \<open>X\<close> and the
  residual \<open>R\<close>.
\<close>

fun spec_backward :: "int list \<Rightarrow> real list \<Rightarrow> real list \<Rightarrow> real list \<times> real" where
  "spec_backward (yt # y) (dt # d) (Ct # C) =
     (let (X, R) = spec_backward y d C; R1 = R + dt in
      if yt = 1 then (min Ct R1 # X, R1 - min Ct R1) else (0 # X, R1))"
| "spec_backward y d C = ([], 0)"

text \<open>Forward pass: the running inventory \<open>inv \<leftarrow> inv + X[t] - d[t]\<close>, period by period.\<close>

fun spec_inventory :: "real \<Rightarrow> real list \<Rightarrow> real list \<Rightarrow> real list" where
  "spec_inventory inv0 (x # X) (dt # d) = (inv0 + x - dt) # spec_inventory (inv0 + x - dt) X d"
| "spec_inventory inv0 X d = []"

definition spec_cost :: "int list \<Rightarrow> real list \<Rightarrow> real list \<Rightarrow> real list \<Rightarrow> real list
    \<Rightarrow> real list \<Rightarrow> real" where
  "spec_cost y s p h X I =
     (\<Sum>t\<leftarrow>[0..<length X]. s ! t * real_of_int (y ! t) + p ! t * X ! t + h ! t * I ! t)"

definition spec_decode :: "int list \<Rightarrow> real list \<Rightarrow> real list \<Rightarrow> real list \<Rightarrow> real list
    \<Rightarrow> real list \<Rightarrow> real list option \<times> real list option \<times> real" where
  "spec_decode y d C s p h =
     (let (X, R) = spec_backward y d C in
      if R > TOL then (None, None, BIGM + R * PENALTY)
      else let I = spec_inventory 0 X d in
        case find (\<lambda>v. v < - TOL) I of
          Some v \<Rightarrow> (None, None, BIGM + \<bar>v\<bar> * PENALTY)
        | None \<Rightarrow> (Some X, Some I, spec_cost y s p h X I))"


subsection \<open>The constructor\<close>

text \<open>
  The holding-cost loop \<^verbatim>\<open>for k in range(t + 1, end + 1)\<close>; \<^verbatim>\<open>d[k]\<close> is in
  range (\<open>k \<le> end < T\<close>), \<^verbatim>\<open>h[k]\<close> may raise.
\<close>

fun hold_loop :: "real list \<Rightarrow> real list \<Rightarrow> nat list \<Rightarrow> real \<times> real \<Rightarrow> py_error + real" where
  "hold_loop d h [] (hold_cost, cum) = Inr hold_cost"
| "hold_loop d h (k # ks) (hold_cost, cum) =
     (let cum1 = cum + d ! k in
      if length h \<le> k then Inl IndexError
      else hold_loop d h ks (hold_cost + h ! k * cum1, cum1))"

text \<open>\<^verbatim>\<open>sum(p[k] * d[k] for k in range(t, end + 1))\<close>; \<^verbatim>\<open>p[k]\<close> may raise.\<close>

fun prod_sum :: "real list \<Rightarrow> real list \<Rightarrow> nat list \<Rightarrow> real \<Rightarrow> py_error + real" where
  "prod_sum p d [] acc = Inr acc"
| "prod_sum p d (k # ks) acc =
     (if length p \<le> k then Inl IndexError else prod_sum p d ks (acc + p ! k * d ! k))"

text \<open>
  The approximate average unit cost of the lot \<open>t..end\<close> of demand \<open>dem\<close>, all produced
  in period \<open>t\<close>: the part of the candidate loop's body after the capacity filter.
  \<^verbatim>\<open>s[t]\<close> may raise, and the division raises when \<open>dem + 1e-9\<close> is zero. The
  cost is an exact real here; the source's double is its rounding, finite on
  \<open>moderate\<close> data.
\<close>

definition lot_avg_cost :: "real list \<Rightarrow> real list \<Rightarrow> real list \<Rightarrow> real list \<Rightarrow> nat \<Rightarrow> nat
    \<Rightarrow> real \<Rightarrow> py_error + real" where
  "lot_avg_cost d s p h t end dem =
     (if length s \<le> t then Inl IndexError
      else let setup_cost = s ! t in
        case prod_sum p d [t..<end + 1] 0 of
          Inl e \<Rightarrow> Inl e
        | Inr prod_cost \<Rightarrow>
            (case hold_loop d h [t + 1..<end + 1] (0, 0) of
               Inl e \<Rightarrow> Inl e
             | Inr hold_cost \<Rightarrow>
                 if dem + 1 / 10 ^ 9 = 0 then Inl ZeroDivisionError
                 else Inr ((setup_cost + prod_cost + hold_cost) / (dem + 1 / 10 ^ 9))))"

text \<open>
  The candidate loop \<^verbatim>\<open>for L in range(1, L_max + 1)\<close> at cursor \<open>t\<close>, with its
  \<^verbatim>\<open>break\<close> (the lot leaves the horizon) and its \<^verbatim>\<open>continue\<close> (the capacity of
  period \<open>t\<close> does not cover the lot). The slice \<^verbatim>\<open>d[t:end+1]\<close> is
  \<open>take (end + 1 - t) (drop t d)\<close>; \<^verbatim>\<open>C[t]\<close> may raise.
\<close>

fun cand_loop :: "real list \<Rightarrow> real list \<Rightarrow> real list \<Rightarrow> real list \<Rightarrow> real list \<Rightarrow> nat
    \<Rightarrow> nat list \<Rightarrow> (nat \<times> real) list \<Rightarrow> py_error + (nat \<times> real) list" where
  "cand_loop d C s p h t [] candidates = Inr candidates"
| "cand_loop d C s p h t (L # Ls) candidates =
     (let end = t + L - 1 in
      if end \<ge> length d then Inr candidates
      else let dem = sum_list (take (end + 1 - t) (drop t d)) in
        if length C \<le> t then Inl IndexError
        else let cap = C ! t in
          if cap + TOL < dem then cand_loop d C s p h t Ls candidates
          else (case lot_avg_cost d s p h t end dem of
                  Inl e \<Rightarrow> Inl e
                | Inr avg_cost \<Rightarrow> cand_loop d C s p h t Ls (candidates @ [(L, avg_cost)])))"

definition candidates_at :: "real list \<Rightarrow> real list \<Rightarrow> real list \<Rightarrow> real list \<Rightarrow> real list
    \<Rightarrow> int \<Rightarrow> nat \<Rightarrow> py_error + (nat \<times> real) list" where
  "candidates_at d C s p h L_max t = cand_loop d C s p h t [1..<nat (L_max + 1)] []"

text \<open>
  \<^verbatim>\<open>min(c for _, c in candidates)\<close> and \<^verbatim>\<open>max(...)\<close> on a non-empty list: Python
  keeps the running extremum, starting from the first element. The source reaches them
  only after \<^verbatim>\<open>if not candidates\<close> has sent the empty list the other way, and so does
  the loop below; the equation for \<open>[]\<close> only makes the functions total.
\<close>

fun c_min_of :: "(nat \<times> real) list \<Rightarrow> real" where
  "c_min_of (c0 # cs) = fold min (map snd cs) (snd c0)"
| "c_min_of [] = 0"

fun c_max_of :: "(nat \<times> real) list \<Rightarrow> real" where
  "c_max_of (c0 # cs) = fold max (map snd cs) (snd c0)"
| "c_max_of [] = 0"

text \<open>
  \<^verbatim>\<open>thresh = c_min + alpha * (c_max - c_min + 1e-9)\<close>, exact here. The source's double
  is at least \<open>c_min\<close> for \<open>alpha \<ge> 0\<close> and finite costs (rounding is monotone), but at
  \<open>alpha = 1\<close> it can fall below \<open>c_max\<close>.
\<close>

definition thresh_of :: "real \<Rightarrow> (nat \<times> real) list \<Rightarrow> real" where
  "thresh_of alpha candidates =
     (let c_min = c_min_of candidates; c_max = c_max_of candidates
      in c_min + alpha * (c_max - c_min + 1 / 10 ^ 9))"

text \<open>\<^verbatim>\<open>RCL = [L for L, c in candidates if c <= thresh]\<close>\<close>

definition RCL_of :: "real \<Rightarrow> (nat \<times> real) list \<Rightarrow> nat list" where
  "RCL_of alpha candidates =
     map fst (filter (\<lambda>(L, c). c \<le> thresh_of alpha candidates) candidates)"

text \<open>
  \<^verbatim>\<open>random.choice(seq)\<close>: \<^verbatim>\<open>IndexError\<close> on an empty sequence, else the element at
  a drawn position; \<open>k\<close> counts the draws made.
\<close>

definition random_choice :: "(nat \<Rightarrow> nat) \<Rightarrow> nat \<Rightarrow> 'a list \<Rightarrow> py_error + ('a \<times> nat)" where
  "random_choice rnd k xs =
     (if xs = [] then Inl IndexError else Inr (xs ! (rnd k mod length xs), Suc k))"


text \<open>The generator whose every draw picks the first element.\<close>

definition first_choice :: "nat \<Rightarrow> nat" where
  "first_choice k = 0"

text \<open>Every candidate lot has a length of at least 1: the cursor always advances.\<close>

lemma cand_loop_Cons:
  "cand_loop d C s p h t (L # Ls) cands = Inr cands' \<Longrightarrow>
   cands' = cands \<or> cand_loop d C s p h t Ls cands = Inr cands' \<or>
   (\<exists>c. cand_loop d C s p h t Ls (cands @ [(L, c)]) = Inr cands')"
  by (simp only: cand_loop.simps Let_def, simp split: if_splits sum.splits, blast)

lemma cand_loop_ge1:
  "cand_loop d C s p h t Ls cands = Inr cands' \<Longrightarrow> \<forall>L\<in>set Ls. 1 \<le> L \<Longrightarrow>
   \<forall>x\<in>set cands. 1 \<le> fst x \<Longrightarrow> \<forall>x\<in>set cands'. 1 \<le> fst x"
proof (induction Ls arbitrary: cands)
  case Nil
  then show ?case by simp
next
  case (Cons L Ls)
  have Ls: "\<forall>L\<in>set Ls. 1 \<le> L" and L: "1 \<le> L" using Cons.prems(2) by simp_all
  from cand_loop_Cons[OF Cons.prems(1)] consider
      (brk) "cands' = cands"
    | (cont) "cand_loop d C s p h t Ls cands = Inr cands'"
    | (app) c where "cand_loop d C s p h t Ls (cands @ [(L, c)]) = Inr cands'"
    by blast
  then show ?case
  proof cases
    case brk
    then show ?thesis using Cons.prems(3) by simp
  next
    case cont
    then show ?thesis using Cons.IH[OF _ Ls Cons.prems(3)] by simp
  next
    case app
    have "\<forall>x\<in>set (cands @ [(L, c)]). 1 \<le> fst x" using Cons.prems(3) L by simp
    then show ?thesis using Cons.IH[OF app Ls] by simp
  qed
qed

lemma candidates_at_ge1:
  "candidates_at d C s p h L_max t = Inr cands \<Longrightarrow> x \<in> set cands \<Longrightarrow> 1 \<le> fst x"
  using cand_loop_ge1[of d C s p h t "[1..<nat (L_max + 1)]" "[]" cands]
  by (auto simp: candidates_at_def)

lemma random_choice_in:
  "random_choice rnd k xs = Inr (x, k') \<Longrightarrow> x \<in> set xs \<and> k' = Suc k"
  by (auto simp: random_choice_def split: if_splits)

lemma RCL_of_subset: "L \<in> set (RCL_of alpha cands) \<Longrightarrow> \<exists>c. (L, c) \<in> set cands"
  by (auto simp: RCL_of_def)


text \<open>
  The loop \<^verbatim>\<open>while t < T\<close>; its state is the setup vector \<open>y\<close>, the cursor \<open>t\<close> and
  the number \<open>k\<close> of draws made. \<^verbatim>\<open>y[t] = 1\<close> is in range (\<open>t < T = len(y)\<close>).
\<close>

function gr_loop :: "(nat \<Rightarrow> nat) \<Rightarrow> real list \<Rightarrow> real list \<Rightarrow> real list \<Rightarrow> real list \<Rightarrow> real list
    \<Rightarrow> real \<Rightarrow> int \<Rightarrow> int list \<times> nat \<times> nat \<Rightarrow> py_error + (int list \<times> nat)" where
  "gr_loop rnd d C s p h alpha L_max (y, t, k) =
     (if t < length d then
        (case candidates_at d C s p h L_max t of
           Inl e \<Rightarrow> Inl e
         | Inr candidates \<Rightarrow>
             if candidates = [] then gr_loop rnd d C s p h alpha L_max (y[t := 1], t + 1, k)
             else (case random_choice rnd k (RCL_of alpha candidates) of
                     Inl e \<Rightarrow> Inl e
                   | Inr (L_chosen, k1) \<Rightarrow>
                       gr_loop rnd d C s p h alpha L_max (y[t := 1], t + L_chosen, k1)))
      else Inr (y, k))"
  by pat_completeness auto
termination
proof (relation "measure (\<lambda>(rnd, d, C, s, p, h, alpha, L_max, y, t, k). length d - t)")
  show "wf (measure (\<lambda>(rnd, d, C, s, p, h, alpha, L_max, y, t, k). length d - t))" by simp
next
  fix rnd d C s p h alpha L_max y t k cands
  assume "t < length d"
  then show "((rnd, d, C, s, p, h, alpha, L_max, y[t := 1], t + 1, k),
              rnd, d, C, s, p, h, alpha, L_max, y, t, k)
       \<in> measure (\<lambda>(rnd, d, C, s, p, h, alpha, L_max, y, t, k). length d - t)"
    by simp
next
  fix rnd :: "nat \<Rightarrow> nat" and d C s p h alpha L_max and y :: "int list"
    and t k cands r L_chosen k1
  assume a: "t < length d" "candidates_at d C s p h L_max t = Inr cands" "cands \<noteq> []"
    "random_choice rnd k (RCL_of alpha cands) = Inr r" "(L_chosen, k1) = r"
  then have "L_chosen \<in> set (RCL_of alpha cands)"
    using random_choice_in[of rnd k "RCL_of alpha cands" L_chosen k1] by simp
  then obtain c where "(L_chosen, c) \<in> set cands" using RCL_of_subset by blast
  then have "1 \<le> L_chosen" using candidates_at_ge1[OF a(2)] by fastforce
  then show "((rnd, d, C, s, p, h, alpha, L_max, y[t := 1], t + L_chosen, k1),
              rnd, d, C, s, p, h, alpha, L_max, y, t, k)
       \<in> measure (\<lambda>(rnd, d, C, s, p, h, alpha, L_max, y, t, k). length d - t)"
    using a(1) by simp
qed


declare gr_loop.simps [simp del]

text \<open>
  \<^verbatim>\<open>greedy_randomized_construction(d, C, s, p, h, alpha, L_max)\<close>, started after \<open>k\<close>
  draws; it returns the setup vector and the number of draws made.
\<close>

definition greedy_randomized_construction :: "(nat \<Rightarrow> nat) \<Rightarrow> nat \<Rightarrow> real list \<Rightarrow> real list
    \<Rightarrow> real list \<Rightarrow> real list \<Rightarrow> real list \<Rightarrow> real \<Rightarrow> int \<Rightarrow> py_error + (int list \<times> nat)" where
  "greedy_randomized_construction rnd k d C s p h alpha L_max =
     gr_loop rnd d C s p h alpha L_max (replicate (length d) 0, 0, k)"


text \<open>
  The cursor positions that the loop visits from cursor \<open>t\<close> after \<open>k\<close> draws: \<open>t\<close>
  itself, and those visited from the next cursor (\<open>t + 1\<close> when no lot is a candidate,
  \<open>t + L_chosen\<close> otherwise).
\<close>

inductive visits :: "(nat \<Rightarrow> nat) \<Rightarrow> real list \<Rightarrow> real list \<Rightarrow> real list \<Rightarrow> real list \<Rightarrow> real list
    \<Rightarrow> real \<Rightarrow> int \<Rightarrow> nat \<times> nat \<Rightarrow> nat \<Rightarrow> bool"
  for rnd d C s p h alpha L_max where
    here: "t < length d \<Longrightarrow> visits rnd d C s p h alpha L_max (t, k) t"
  | forced: "t < length d \<Longrightarrow> candidates_at d C s p h L_max t = Inr [] \<Longrightarrow>
      visits rnd d C s p h alpha L_max (t + 1, k) u \<Longrightarrow>
      visits rnd d C s p h alpha L_max (t, k) u"
  | chosen: "t < length d \<Longrightarrow> candidates_at d C s p h L_max t = Inr candidates \<Longrightarrow>
      candidates \<noteq> [] \<Longrightarrow>
      random_choice rnd k (RCL_of alpha candidates) = Inr (L_chosen, k1) \<Longrightarrow>
      visits rnd d C s p h alpha L_max (t + L_chosen, k1) u \<Longrightarrow>
      visits rnd d C s p h alpha L_max (t, k) u"

subsection \<open>Local search\<close>

text \<open>
  The deadline test \<^verbatim>\<open>time_limit is not None and (time.time() - start_time) >= time_limit\<close>.
  Python's \<^verbatim>\<open>and\<close> reads the clock only when a limit is set; \<open>k\<close> counts the
  readings made.
\<close>

definition time_up :: "(nat \<Rightarrow> real) \<Rightarrow> real option \<Rightarrow> real \<Rightarrow> nat \<Rightarrow> bool \<times> nat" where
  "time_up clk time_limit start_time k =
     (case time_limit of
        None \<Rightarrow> (False, k)
      | Some limit \<Rightarrow> (clk k - start_time \<ge> limit, Suc k))"

text \<open>
  A clock too coarse to tick during a run: every reading is the same. \<^verbatim>\<open>time.time()\<close>
  promises no resolution finer than the platform's.
\<close>

definition frozen_clock :: "nat \<Rightarrow> real" where
  "frozen_clock k = 0"

text \<open>
  The sweep \<^verbatim>\<open>for t in range(T)\<close>: flip \<^verbatim>\<open>y[t] ^= 1\<close>, decode, keep an improving
  flip and leave (\<open>improved = True\<close>), else flip back. The deadline leaves the sweep
  before a flip. \<^verbatim>\<open>y[t]\<close> may raise, and so may the decoder.
\<close>

fun sweep :: "(nat \<Rightarrow> real) \<Rightarrow> real list \<Rightarrow> real list \<Rightarrow> real list \<Rightarrow> real list \<Rightarrow> real list
    \<Rightarrow> real option \<Rightarrow> real \<Rightarrow> nat list \<Rightarrow> int list \<times> real \<times> nat
    \<Rightarrow> py_error + (int list \<times> real \<times> bool \<times> nat)" where
  "sweep clk d C s p h time_limit start_time [] (y, best_cost, k) = Inr (y, best_cost, False, k)"
| "sweep clk d C s p h time_limit start_time (t # ts) (y, best_cost, k) =
     (case time_up clk time_limit start_time k of
        (True, k1) \<Rightarrow> Inr (y, best_cost, False, k1)
      | (False, k1) \<Rightarrow>
          if length y \<le> t then Inl IndexError
          else let y1 = y[t := (y ! t) XOR 1] in
            case decode_solution y1 d C s p h of
              Inl e \<Rightarrow> Inl e
            | Inr r \<Rightarrow>
                if cost_of r < best_cost then Inr (y1, cost_of r, True, k1)
                else sweep clk d C s p h time_limit start_time ts
                       (y1[t := (y1 ! t) XOR 1], best_cost, k1))"

text \<open>
  Two notions for the termination of the outer loop: the cost the decoder gives a
  vector, and the vectors that differ from \<open>y\<close> in lowest bits only, which are all a
  flip can reach.
\<close>

definition dcost :: "real list \<Rightarrow> real list \<Rightarrow> real list \<Rightarrow> real list \<Rightarrow> real list \<Rightarrow> int list \<Rightarrow> real" where
  "dcost d C s p h y = (case decode_solution y d C s p h of Inl e \<Rightarrow> 0 | Inr r \<Rightarrow> cost_of r)"

definition flips :: "int list \<Rightarrow> int list set" where
  "flips y = {z. map (\<lambda>v. v div 2) z = map (\<lambda>v. v div 2) y}"

lemma xor1_div2: "((v::int) XOR 1) div 2 = v div 2"
  by (subst xor_int_rec) simp

lemma xor1_xor1: "((v::int) XOR 1) XOR 1 = v"
  by (simp add: xor.assoc)

lemma finite_flips: "finite (flips y)"
proof -
  let ?A = "(\<lambda>k. 2 * k) ` set (map (\<lambda>v. v div 2) y) \<union> (\<lambda>k. 2 * k + 1) ` set (map (\<lambda>v. v div 2) y)"
  have "flips y \<subseteq> {z. set z \<subseteq> ?A \<and> length z = length y}"
  proof
    fix z assume "z \<in> flips y"
    then have m: "map (\<lambda>v. v div 2) z = map (\<lambda>v. v div 2) y" by (simp add: flips_def)
    then have l: "length z = length y" using map_eq_imp_length_eq by blast
    have "v \<in> ?A" if "v \<in> set z" for v
    proof -
      have "v div 2 \<in> set (map (\<lambda>v. v div 2) y)" using that m by (metis image_eqI list.set_map)
      moreover have "v = 2 * (v div 2) \<or> v = 2 * (v div 2) + 1" by presburger
      ultimately show ?thesis by blast
    qed
    then show "z \<in> {z. set z \<subseteq> ?A \<and> length z = length y}" using l by blast
  qed
  moreover have "finite {z. set z \<subseteq> ?A \<and> length z = length y}"
    by (rule finite_lists_length_eq) simp
  ultimately show ?thesis by (rule finite_subset)
qed

lemma flip_in_flips: "y[t := (y ! t) XOR 1] \<in> flips y"
  by (cases "t < length y") (simp_all add: flips_def map_update xor1_div2 list_update_same_conv list_update_beyond not_less)

lemma flip_back: "t < length (y::int list) \<Longrightarrow> (y[t := (y ! t) XOR 1])[t := ((y[t := (y ! t) XOR 1]) ! t) XOR 1] = y"
  by (simp add: xor1_xor1)

lemma flips_eq: "y' \<in> flips y \<Longrightarrow> flips y' = flips y"
  by (auto simp: flips_def)

lemma sweep_result:
  "sweep clk d C s p h time_limit start_time ts (y, best_cost, k) = Inr (y', best', improved, k') \<Longrightarrow>
   k \<le> k' \<and>
   (if improved then y' \<in> flips y \<and> length y' = length y \<and> best' < best_cost \<and>
        (\<exists>r. decode_solution y' d C s p h = Inr r \<and> cost_of r = best')
    else y' = y \<and> best' = best_cost)"
proof (induction ts arbitrary: k)
  case Nil
  then show ?case by simp
next
  case (Cons t ts)
  show ?case
  proof (cases "time_up clk time_limit start_time k")
    case (Pair b k1)
    have kk: "k \<le> k1" using Pair by (auto simp: time_up_def split: option.splits)
    show ?thesis
    proof (cases b)
      case True
      then show ?thesis using Cons.prems Pair kk by simp
    next
      case False
      then have ly: "t < length y" using Cons.prems Pair by (simp split: if_splits)
      let ?y1 = "y[t := (y ! t) XOR 1]"
      obtain r where r: "decode_solution ?y1 d C s p h = Inr r"
        using Cons.prems Pair False ly by (cases "decode_solution ?y1 d C s p h") (simp_all add: Let_def)
      show ?thesis
      proof (cases "cost_of r < best_cost")
        case True
        then show ?thesis
          using Cons.prems Pair False ly r kk flip_in_flips[of y t] by (auto simp: Let_def)
      next
        case nimp: False
        then have "sweep clk d C s p h time_limit start_time ts (y, best_cost, k1) = Inr (y', best', improved, k')"
          using Cons.prems Pair False ly r flip_back[OF ly] by (simp add: Let_def)
        from Cons.IH[OF this] kk show ?thesis by auto
      qed
    qed
  qed
qed

lemma sweep_measure:
  assumes "sweep clk d C s p h time_limit start_time ts (y, best_cost, k) = Inr (y', best', True, k')"
  shows "card {z \<in> flips y'. dcost d C s p h z < best'}
       < card {z \<in> flips y. dcost d C s p h z < best_cost}"
proof -
  from sweep_result[OF assms] obtain r where
    f: "y' \<in> flips y" and lt: "best' < best_cost" and
    r: "decode_solution y' d C s p h = Inr r" "cost_of r = best'"
    by auto
  have dc: "dcost d C s p h y' = best'" using r by (simp add: dcost_def)
  have "y' \<in> flips y'" by (simp add: flips_def)
  then have "{z \<in> flips y'. dcost d C s p h z < best'} \<subset> {z \<in> flips y. dcost d C s p h z < best_cost}"
    using flips_eq[OF f] lt dc by auto
  moreover have "finite {z \<in> flips y. dcost d C s p h z < best_cost}"
    using finite_flips by simp
  ultimately show ?thesis by (rule psubset_card_mono[rotated])
qed

text \<open>
  The loop \<^verbatim>\<open>while improved\<close>. Each further round follows an improving flip, so
  the number of reachable vectors that are cheaper than the current one decreases.
\<close>

function ls_loop :: "(nat \<Rightarrow> real) \<Rightarrow> real list \<Rightarrow> real list \<Rightarrow> real list \<Rightarrow> real list \<Rightarrow> real list
    \<Rightarrow> real option \<Rightarrow> real \<Rightarrow> int list \<times> real \<times> nat \<Rightarrow> py_error + (int list \<times> real \<times> nat)" where
  "ls_loop clk d C s p h time_limit start_time (y, best_cost, k) =
     (case time_up clk time_limit start_time k of
        (True, k1) \<Rightarrow> Inr (y, best_cost, k1)
      | (False, k1) \<Rightarrow>
          (case sweep clk d C s p h time_limit start_time [0..<length d] (y, best_cost, k1) of
             Inl e \<Rightarrow> Inl e
           | Inr (y', best_cost', improved, k2) \<Rightarrow>
               if improved then ls_loop clk d C s p h time_limit start_time (y', best_cost', k2)
               else Inr (y', best_cost', k2)))"
  by pat_completeness auto
termination
proof (relation "measure (\<lambda>(clk, d, C, s, p, h, time_limit, start_time, y, best_cost, k).
          card {z \<in> flips y. dcost d C s p h z < best_cost})")
  show "wf (measure (\<lambda>(clk, d, C, s, p, h, time_limit, start_time, y, best_cost, k).
          card {z \<in> flips y. dcost d C s p h z < best_cost}))" by simp
next
  fix clk d C s p h time_limit start_time y best_cost k b k1 r y' r1 best_cost' r2 improved k2
  assume "sweep clk d C s p h time_limit start_time [0..<length d] (y, best_cost, k1) = Inr r"
    "(y', r1) = r" "(best_cost', r2) = r1" "(improved, k2) = r2" "improved"
  then have "sweep clk d C s p h time_limit start_time [0..<length d] (y, best_cost, k1)
      = Inr (y', best_cost', True, k2)"
    by auto
  from sweep_measure[OF this]
  show "((clk, d, C, s, p, h, time_limit, start_time, y', best_cost', k2),
         clk, d, C, s, p, h, time_limit, start_time, y, best_cost, k)
       \<in> measure (\<lambda>(clk, d, C, s, p, h, time_limit, start_time, y, best_cost, k).
          card {z \<in> flips y. dcost d C s p h z < best_cost})"
    by simp
qed


declare ls_loop.simps [simp del]

text \<open>
  \<^verbatim>\<open>local_search(y, d, C, s, p, h, time_limit, start_time)\<close>, entered after \<open>k\<close>
  readings of the clock. With \<^verbatim>\<open>start_time=None\<close> the clock is read once more. It
  returns \<open>y\<close>, \<open>best_cost\<close> and the number of readings made.
\<close>

definition local_search :: "(nat \<Rightarrow> real) \<Rightarrow> nat \<Rightarrow> int list \<Rightarrow> real list \<Rightarrow> real list
    \<Rightarrow> real list \<Rightarrow> real list \<Rightarrow> real list \<Rightarrow> real option \<Rightarrow> real option
    \<Rightarrow> py_error + (int list \<times> real \<times> nat)" where
  "local_search clk k y d C s p h time_limit start_time =
     (case decode_solution y d C s p h of
        Inl e \<Rightarrow> Inl e
      | Inr r \<Rightarrow>
          (case start_time of
             None \<Rightarrow> ls_loop clk d C s p h time_limit (clk k) (y, cost_of r, Suc k)
           | Some st \<Rightarrow> ls_loop clk d C s p h time_limit st (y, cost_of r, k)))"

subsection \<open>The driver\<close>

text \<open>
  The state of the loop of \<^verbatim>\<open>grasp\<close>: the best vector and cost, the convergence
  log, and the numbers of draws (\<open>rk\<close>) and of clock readings (\<open>ck\<close>) made.
\<close>

record grasp_state =
  best_y :: "int list"
  best_cost :: real
  log_convergencia :: "(real \<times> real) list"
  rk :: nat
  ck :: nat

text \<open>
  The loop \<^verbatim>\<open>for it in range(max_iter)\<close>; the body does not use \<open>it\<close>. The
  constructor is called with \<^verbatim>\<open>L_max=min(L_max, T)\<close>, local search with the
  driver's \<open>start_time\<close>.
\<close>

fun grasp_loop :: "(nat \<Rightarrow> real) \<Rightarrow> (nat \<Rightarrow> nat) \<Rightarrow> real list \<Rightarrow> real list \<Rightarrow> real list
    \<Rightarrow> real list \<Rightarrow> real list \<Rightarrow> real \<Rightarrow> int \<Rightarrow> real option \<Rightarrow> real \<Rightarrow> nat list
    \<Rightarrow> grasp_state \<Rightarrow> py_error + grasp_state" where
  "grasp_loop clk rnd d C s p h alpha L_max time_limit start_time [] st = Inr st"
| "grasp_loop clk rnd d C s p h alpha L_max time_limit start_time (it # its) st =
     (case time_up clk time_limit start_time (ck st) of
        (True, k1) \<Rightarrow> Inr (st\<lparr>ck := k1\<rparr>)
      | (False, k1) \<Rightarrow>
          (case greedy_randomized_construction rnd (rk st) d C s p h alpha
                  (min L_max (int (length d))) of
             Inl e \<Rightarrow> Inl e
           | Inr (y_construida, r1) \<Rightarrow>
               (case decode_solution y_construida d C s p h of
                  Inl e \<Rightarrow> Inl e
                | Inr res \<Rightarrow>
                    if cost_of res \<ge> BIGM / 2
                    then grasp_loop clk rnd d C s p h alpha L_max time_limit start_time its
                           (st\<lparr>rk := r1, ck := k1\<rparr>)
                    else (case local_search clk k1 y_construida d C s p h time_limit
                                 (Some start_time) of
                            Inl e \<Rightarrow> Inl e
                          | Inr (y, cost, k2) \<Rightarrow>
                              if cost < best_cost st
                              then grasp_loop clk rnd d C s p h alpha L_max time_limit
                                     start_time its
                                     \<lparr>best_y = y, best_cost = cost,
                                      log_convergencia =
                                        log_convergencia st @ [(clk k2 - start_time, cost)],
                                      rk = r1, ck = Suc k2\<rparr>
                              else grasp_loop clk rnd d C s p h alpha L_max time_limit
                                     start_time its (st\<lparr>rk := r1, ck := k2\<rparr>)))))"

text \<open>
  \<^verbatim>\<open>grasp(d, C, s, p, h, max_iter, alpha, L_max, seed, time_limit)\<close>. The seed only
  fixes the generator, which the oracle \<open>rnd\<close> stands for. The clock is read for
  \<open>start_time\<close> and for the first sample of the log, which is shifted by \<^verbatim>\<open>1e-6\<close>.
  The result is \<open>(best_y, X, I, best_cost, log_convergencia)\<close>.
\<close>

definition grasp :: "(nat \<Rightarrow> real) \<Rightarrow> (nat \<Rightarrow> nat) \<Rightarrow> real list \<Rightarrow> real list \<Rightarrow> real list
    \<Rightarrow> real list \<Rightarrow> real list \<Rightarrow> int \<Rightarrow> real \<Rightarrow> int \<Rightarrow> real option
    \<Rightarrow> py_error + (int list \<times> real list option \<times> real list option \<times> real \<times> (real \<times> real) list)" where
  "grasp clk rnd d C s p h max_iter alpha L_max time_limit =
     (let T = length d; start_time = clk 0; y_trivial = replicate T 1 in
      case decode_solution y_trivial d C s p h of
        Inl e \<Rightarrow> Inl e
      | Inr res \<Rightarrow>
          (case grasp_loop clk rnd d C s p h alpha L_max time_limit start_time
                  [0..<nat max_iter]
                  \<lparr>best_y = y_trivial, best_cost = cost_of res,
                   log_convergencia = [(clk 1 - start_time + 1 / 10 ^ 6, cost_of res)],
                   rk = 0, ck = 2\<rparr> of
             Inl e \<Rightarrow> Inl e
           | Inr st \<Rightarrow>
               (case decode_solution (best_y st) d C s p h of
                  Inl e \<Rightarrow> Inl e
                | Inr (X, I, c) \<Rightarrow>
                    Inr (best_y st, X, I, best_cost st, log_convergencia st))))"

text \<open>
  The feasibility flag of \<^verbatim>\<open>run_grasp_on_all_instances\<close>:
  \<^verbatim>\<open>factivel = cost < BIGM / 2\<close>, on the cost that \<^verbatim>\<open>grasp\<close> returned.
\<close>

definition factivel :: "py_error + (int list \<times> real list option \<times> real list option \<times> real \<times> (real \<times> real) list)
    \<Rightarrow> py_error + bool" where
  "factivel result =
     (case result of
        Inl e \<Rightarrow> Inl e
      | Inr (y, X, I, cost, log_conv) \<Rightarrow> Inr (cost < BIGM / 2))"

text \<open>
  Two invariants of the loop. The first ties the state together: \<open>best_cost\<close> is the
  decoded cost of \<open>best_y\<close> and the cost of the last sample of the log, and the costs
  of the log decrease strictly. The second is about the times of the samples after the
  first, for a clock that never runs backwards.
\<close>

definition driver_inv :: "real list \<Rightarrow> real list \<Rightarrow> real list \<Rightarrow> real list \<Rightarrow> real list
    \<Rightarrow> grasp_state \<Rightarrow> bool" where
  "driver_inv d C s p h st \<longleftrightarrow>
     (\<exists>r. decode_solution (best_y st) d C s p h = Inr r \<and> cost_of r = best_cost st) \<and>
     log_convergencia st \<noteq> [] \<and>
     snd (last (log_convergencia st)) = best_cost st \<and>
     sorted_wrt (>) (map snd (log_convergencia st))"

definition times_ok :: "(nat \<Rightarrow> real) \<Rightarrow> real \<Rightarrow> grasp_state \<Rightarrow> bool" where
  "times_ok clk start_time st \<longleftrightarrow>
     log_convergencia st \<noteq> [] \<and> 1 \<le> ck st \<and>
     sorted (map fst (tl (log_convergencia st))) \<and>
     (\<forall>t\<in>set (map fst (tl (log_convergencia st))).
        clk 1 - start_time \<le> t \<and> (\<forall>j\<ge>ck st. t \<le> clk j - start_time))"

section \<open>The decoder refines its specification\<close>

lemma upd_replicate_Suc:
  "(replicate n a @ b # xs)[n := v] = replicate n a @ v # xs"
  by (simp add: list_update_append)

lemma replicate_Suc_app:
  "replicate (Suc n) a @ xs = replicate n a @ a # xs"
  by (induction n) auto

lemma backward_spec_gen:
  "n \<le> length d \<Longrightarrow> length y = length d \<Longrightarrow> length C = length d \<Longrightarrow>
   backward y d C (rev [0..<n])
     (replicate n 0 @ fst (spec_backward (drop n y) (drop n d) (drop n C)),
      snd (spec_backward (drop n y) (drop n d) (drop n C)))
   = Inr (spec_backward y d C)"
proof (induction n)
  case 0
  then show ?case by (cases "spec_backward y d C") simp
next
  case (Suc n)
  then have n: "n < length d" "n < length y" "n < length C" by simp_all
  have dy: "drop n y = y ! n # drop (Suc n) y" using n by (simp add: Cons_nth_drop_Suc)
  have dd: "drop n d = d ! n # drop (Suc n) d" using n by (simp add: Cons_nth_drop_Suc)
  have dC: "drop n C = C ! n # drop (Suc n) C" using n by (simp add: Cons_nth_drop_Suc)
  show ?case
    using n Suc.IH Suc.prems
    by (auto simp: dy dd dC upd_replicate_Suc replicate_Suc_app Let_def split: prod.splits simp del: replicate_Suc)
qed

lemma length_spec_backward:
  "length y = length d \<Longrightarrow> length C = length d \<Longrightarrow> length (fst (spec_backward y d C)) = length d"
  by (induction y d C rule: spec_backward.induct) (auto simp: Let_def split: prod.splits)

lemma length_spec_inventory:
  "length X = length d \<Longrightarrow> length (spec_inventory inv0 X d) = length d"
  by (induction inv0 X d rule: spec_inventory.induct) auto

lemma forward_spec_gen:
  "length X = length d \<Longrightarrow> length I = length d \<Longrightarrow> n \<le> length d \<Longrightarrow>
   forward X d [n..<length d] (I, inv0) =
     (case find (\<lambda>v. v < - TOL) (spec_inventory inv0 (drop n X) (drop n d)) of
        Some v \<Rightarrow> Inl v
      | None \<Rightarrow> Inr (take n I @ spec_inventory inv0 (drop n X) (drop n d)))"
proof (induction "length d - n" arbitrary: n I inv0)
  case 0
  then show ?case by simp
next
  case (Suc k)
  then have n: "n < length d" "n < length X" "n < length I" by simp_all
  have dX: "drop n X = X ! n # drop (Suc n) X" using n by (simp add: Cons_nth_drop_Suc)
  have dd: "drop n d = d ! n # drop (Suc n) d" using n by (simp add: Cons_nth_drop_Suc)
  have up: "[n..<length d] = n # [Suc n..<length d]" using n by (simp add: upt_conv_Cons)
  have k: "k = length d - Suc n" using Suc.hyps(2) by simp
  have tk: "take (Suc n) (I[n := v]) = take n I @ [v]" for v
    using n by (simp add: take_Suc_conv_app_nth)
  show ?case
    using Suc.hyps(1)[OF k, of "I[n := inv0 + X ! n - d ! n]" "inv0 + X ! n - d ! n"] Suc.prems n
    by (simp add: up dX dd tk Let_def split: option.splits)
qed

lemma cost_loop_spec_gen:
  "\<forall>t\<in>set ts. t < length s \<and> t < length y \<and> t < length p \<and> t < length h \<Longrightarrow>
   cost_loop y s p h X I ts c =
     Inr (c + (\<Sum>t\<leftarrow>ts. s ! t * real_of_int (y ! t) + p ! t * X ! t + h ! t * I ! t))"
  by (induction ts arbitrary: c) (auto simp: not_le)

lemma decode_solution_spec:
  assumes "length y = length d" "length C = length d" "length s = length d"
    "length p = length d" "length h = length d"
  shows "decode_solution y d C s p h = Inr (spec_decode y d C s p h)"
proof -
  obtain X R where XR: "spec_backward y d C = (X, R)" by (cases "spec_backward y d C")
  have b: "backward y d C (rev [0..<length d]) (replicate (length d) 0, 0) = Inr (X, R)"
    using backward_spec_gen[of "length d" d y C] assms XR by simp
  have lX: "length X = length d"
    using length_spec_backward[of y d C] assms XR by simp
  have f: "forward X d [0..<length d] (replicate (length d) 0, 0) =
     (case find (\<lambda>v. v < - TOL) (spec_inventory 0 X d) of
        Some v \<Rightarrow> Inl v | None \<Rightarrow> Inr (spec_inventory 0 X d))"
    using forward_spec_gen[of X d "replicate (length d) 0" 0 0] lX by (simp split: option.splits)
  have c: "cost_loop y s p h X I [0..<length d] 0 = Inr (spec_cost y s p h X I)" for I
    using cost_loop_spec_gen[of "[0..<length d]" s y p h X I 0] assms lX
    by (simp add: spec_cost_def)
  show ?thesis
    by (simp add: decode_solution_def spec_decode_def XR b f c Let_def split: option.splits)
qed


subsection \<open>Arithmetic of the two passes\<close>

lemma forward_Inl: "forward X d ts (I, inv0) = Inl v \<Longrightarrow> v < - TOL"
  by (induction ts arbitrary: I inv0) (auto simp: Let_def split: if_splits)

lemma infeasible_score:
  assumes "decode_solution y d C s p h = Inr (None, I, c)"
  shows "BIGM + 1 < c"
proof -
  have a: "TOL < R \<Longrightarrow> BIGM + 1 < BIGM + R * PENALTY" for R
    by (simp add: TOL_def PENALTY_def field_simps)
  have b: "v < - TOL \<Longrightarrow> BIGM + 1 < BIGM + \<bar>v\<bar> * PENALTY" for v
    by (simp add: TOL_def PENALTY_def field_simps)
  show ?thesis
    using assms a b
    by (auto simp: decode_solution_def Let_def split: sum.splits prod.splits if_splits
        dest!: forward_Inl)
qed

lemma spec_backward_conservation:
  "length y = length d \<Longrightarrow> length C = length d \<Longrightarrow>
   sum_list (fst (spec_backward y d C)) + snd (spec_backward y d C) = sum_list d"
  by (induction y d C rule: spec_backward.induct) (auto simp: Let_def split: prod.splits)

lemma spec_backward_drop:
  "length y = length d \<Longrightarrow> length C = length d \<Longrightarrow>
   drop n (fst (spec_backward y d C)) = fst (spec_backward (drop n y) (drop n d) (drop n C))"
proof (induction y d C arbitrary: n rule: spec_backward.induct)
  case (1 yt y dt d Ct C)
  then show ?case by (cases n) (auto simp: Let_def split: prod.splits)
qed auto

lemma spec_backward_le_cap:
  "length y = length d \<Longrightarrow> length C = length d \<Longrightarrow> \<forall>c\<in>set C. 0 \<le> c \<Longrightarrow>
   sum_list (fst (spec_backward y d C)) \<le> sum_list C"
  by (induction y d C rule: spec_backward.induct) (auto simp: Let_def split: prod.splits)

lemma spec_backward_residual_nonneg:
  "length y = length d \<Longrightarrow> length C = length d \<Longrightarrow>
   \<forall>i<length d. y ! i = 1 \<or> 0 \<le> d ! i \<Longrightarrow> 0 \<le> snd (spec_backward y d C)"
proof (induction y d C rule: spec_backward.induct)
  case (1 yt y dt d Ct C)
  have "\<forall>i<length d. y ! i = 1 \<or> 0 \<le> d ! i" using "1.prems"(3) by fastforce
  then have "0 \<le> snd (spec_backward y d C)" using 1 by simp
  moreover have "yt = 1 \<or> 0 \<le> dt" using "1.prems"(3) by fastforce
  ultimately show ?case by (auto simp: Let_def split: prod.splits)
qed auto

lemma spec_backward_ones_residual:
  "length C = length d \<Longrightarrow> 0 \<le> e \<Longrightarrow>
   \<forall>k\<le>length d. sum_list (take k d) \<le> sum_list (take k C) + e \<Longrightarrow>
   snd (spec_backward (replicate (length d) 1) d C) \<le> e"
proof (induction d C arbitrary: e rule: list_induct2')
  case (4 dt d Ct C)
  have k1: "dt \<le> Ct + e" using "4.prems"(3)[rule_format, of 1] by simp
  have "\<forall>k\<le>length d. sum_list (take k d) \<le> sum_list (take k C) + (e + Ct - dt)"
  proof (intro allI impI)
    fix k assume "k \<le> length d"
    then show "sum_list (take k d) \<le> sum_list (take k C) + (e + Ct - dt)"
      using "4.prems"(3)[rule_format, of "Suc k"] by simp
  qed
  then have "snd (spec_backward (replicate (length d) 1) d C) \<le> e + Ct - dt"
    using "4.IH"[of "e + Ct - dt"] "4.prems" k1 by simp
  then show ?case using "4.prems"(2) by (auto simp: Let_def split: prod.splits)
qed auto

lemma spec_inventory_elem:
  "length X = length d \<Longrightarrow> v \<in> set (spec_inventory inv0 X d) \<Longrightarrow>
   \<exists>n\<le>length d. v = inv0 + sum_list (take n X) - sum_list (take n d)"
proof (induction inv0 X d rule: spec_inventory.induct)
  case (1 inv0 x X dt d)
  show ?case
  proof (cases "v = inv0 + x - dt")
    case True
    then show ?thesis by (intro exI[of _ 1]) simp
  next
    case False
    then have "v \<in> set (spec_inventory (inv0 + x - dt) X d)" using "1.prems" by simp
    then obtain n where "n \<le> length d" "v = inv0 + x - dt + sum_list (take n X) - sum_list (take n d)"
      using "1.IH" "1.prems"(1) by auto
    then show ?thesis by (intro exI[of _ "Suc n"]) simp
  qed
qed auto

lemma spec_inventory_balance:
  assumes "length y = length d" "length C = length d" "n \<le> length d"
  shows "sum_list (take n (fst (spec_backward y d C))) - sum_list (take n d)
       = snd (spec_backward (drop n y) (drop n d) (drop n C)) - snd (spec_backward y d C)"
proof -
  let ?X = "fst (spec_backward y d C)"
  have "sum_list ?X = sum_list (take n ?X) + sum_list (drop n ?X)"
    by (metis append_take_drop_id sum_list_append)
  moreover have "sum_list d = sum_list (take n d) + sum_list (drop n d)"
    by (metis append_take_drop_id sum_list_append)
  moreover have "sum_list (drop n ?X) + snd (spec_backward (drop n y) (drop n d) (drop n C))
      = sum_list (drop n d)"
    using spec_backward_conservation[of "drop n y" "drop n d" "drop n C"] assms
    by (simp add: spec_backward_drop)
  moreover note spec_backward_conservation[OF assms(1,2)]
  ultimately show ?thesis by simp
qed


text \<open>Bounds of the plan: production and residual lie between 0 and the total demand.\<close>

lemma spec_backward_range:
  "length y = length d \<Longrightarrow> length C = length d \<Longrightarrow> \<forall>x\<in>set d. 0 \<le> x \<Longrightarrow>
   \<forall>c\<in>set C. 0 \<le> c \<Longrightarrow>
   0 \<le> snd (spec_backward y d C) \<and> snd (spec_backward y d C) \<le> sum_list d \<and>
   (\<forall>x\<in>set (fst (spec_backward y d C)). 0 \<le> x \<and> x \<le> sum_list d)"
proof (induction y d C rule: spec_backward.induct)
  case (1 yt y dt d Ct C)
  obtain X R where XR: "spec_backward y d C = (X, R)" by (cases "spec_backward y d C")
  have ih: "0 \<le> R" "R \<le> sum_list d" "\<forall>x\<in>set X. 0 \<le> x \<and> x \<le> sum_list d"
    using 1 XR by auto
  have dt: "0 \<le> dt" and Ct: "0 \<le> Ct" using "1.prems" by auto
  show ?case
    using ih dt Ct XR by (auto simp: Let_def min_def)
qed auto

lemma spec_cost_bound:
  assumes X: "\<forall>x\<in>set X. 0 \<le> x \<and> x \<le> D" and I: "\<forall>v\<in>set I. 0 \<le> v \<and> v \<le> D"
    and l: "length I = length X" and y: "\<forall>t<length X. y ! t = 1"
  shows "spec_cost y s p h X I \<le> (\<Sum>t\<leftarrow>[0..<length X]. \<bar>s ! t\<bar> + (\<bar>p ! t\<bar> + \<bar>h ! t\<bar>) * D)"
  unfolding spec_cost_def
proof (rule sum_list_mono)
  fix t assume "t \<in> set [0..<length X]"
  then have t: "t < length X" by simp
  have x: "0 \<le> X ! t" "X ! t \<le> D" using X t by auto
  have i: "0 \<le> I ! t" "I ! t \<le> D" using I t l by auto
  have "p ! t * X ! t \<le> \<bar>p ! t\<bar> * X ! t" using x(1) by (simp add: mult_right_mono)
  also have "\<dots> \<le> \<bar>p ! t\<bar> * D" using x(2) by (simp add: mult_left_mono)
  finally have a: "p ! t * X ! t \<le> \<bar>p ! t\<bar> * D" .
  have "h ! t * I ! t \<le> \<bar>h ! t\<bar> * I ! t" using i(1) by (simp add: mult_right_mono)
  also have "\<dots> \<le> \<bar>h ! t\<bar> * D" using i(2) by (simp add: mult_left_mono)
  finally have b: "h ! t * I ! t \<le> \<bar>h ! t\<bar> * D" .
  show "s ! t * real_of_int (y ! t) + p ! t * X ! t + h ! t * I ! t
      \<le> \<bar>s ! t\<bar> + (\<bar>p ! t\<bar> + \<bar>h ! t\<bar>) * D"
    using a b y t by (simp add: algebra_simps)
qed

text \<open>
  A residual within the tolerance and non-negative residuals of all suffixes give a
  plan: the balance after \<open>n\<close> periods is the residual of the suffix minus the residual
  of the whole horizon.
\<close>

lemma spec_decode_plan:
  assumes len: "length y = length d" "length C = length d"
    and res: "snd (spec_backward y d C) \<le> TOL"
    and nn: "\<forall>n\<le>length d. 0 \<le> snd (spec_backward (drop n y) (drop n d) (drop n C))"
  shows "spec_decode y d C s p h =
     (Some (fst (spec_backward y d C)), Some (spec_inventory 0 (fst (spec_backward y d C)) d),
      spec_cost y s p h (fst (spec_backward y d C))
        (spec_inventory 0 (fst (spec_backward y d C)) d))"
proof -
  let ?X = "fst (spec_backward y d C)"
  have lX: "length ?X = length d" using length_spec_backward[OF len] .
  have "\<not> v < - TOL" if "v \<in> set (spec_inventory 0 ?X d)" for v
  proof -
    from spec_inventory_elem[OF lX that] obtain n where
      n: "n \<le> length d" "v = 0 + sum_list (take n ?X) - sum_list (take n d)" by blast
    have "v = snd (spec_backward (drop n y) (drop n d) (drop n C)) - snd (spec_backward y d C)"
      using spec_inventory_balance[OF len n(1)] n(2) by simp
    then show ?thesis using nn n(1) res by fastforce
  qed
  then have "find (\<lambda>v. v < - TOL) (spec_inventory 0 ?X d) = None"
    by (simp add: find_None_iff)
  moreover obtain X R where XR: "spec_backward y d C = (X, R)"
    by (cases "spec_backward y d C")
  ultimately show ?thesis
    using res by (simp add: spec_decode_def Let_def)
qed

section \<open>The constructor returns\<close>

lemma prod_sum_total:
  "\<forall>k\<in>set ks. k < length p \<Longrightarrow> \<exists>v. prod_sum p d ks acc = Inr v"
  by (induction ks arbitrary: acc) auto

lemma hold_loop_total:
  "\<forall>k\<in>set ks. k < length h \<Longrightarrow> \<exists>v. hold_loop d h ks (hc, cum) = Inr v"
  by (induction ks arbitrary: hc cum) (auto simp: Let_def)

lemma lot_avg_cost_total:
  assumes "t < length s" "e < length p" "e < length h" "dem + 1 / 10 ^ 9 \<noteq> 0"
  shows "\<exists>v. lot_avg_cost d s p h t e dem = Inr v"
proof -
  have "\<forall>k\<in>set [t..<e + 1]. k < length p" using assms(2) by auto
  from prod_sum_total[OF this] obtain a where a: "prod_sum p d [t..<e + 1] 0 = Inr a"
    by blast
  have "\<forall>k\<in>set [t + 1..<e + 1]. k < length h" using assms(3) by auto
  from hold_loop_total[OF this] obtain b where b: "hold_loop d h [t + 1..<e + 1] (0, 0) = Inr b"
    by blast
  show ?thesis using assms(1,4) a b by (simp add: lot_avg_cost_def)
qed

lemma cand_loop_total:
  assumes "length C = length d" "length s = length d" "length p = length d"
    "length h = length d" "\<forall>x\<in>set d. 0 \<le> x" "t < length d"
  shows "\<exists>cands'. cand_loop d C s p h t Ls cands = Inr cands'"
proof (induction Ls arbitrary: cands)
  case Nil
  then show ?case by simp
next
  case (Cons L Ls)
  show ?case
  proof (cases "t + L - 1 \<ge> length d")
    case True
    then show ?thesis by (simp add: Let_def)
  next
    case False
    let ?dem = "sum_list (take (t + L - 1 + 1 - t) (drop t d))"
    have "0 \<le> ?dem"
      using assms(5) by (intro sum_list_nonneg) (meson in_set_dropD in_set_takeD)
    then have nz: "?dem + 1 / 10 ^ 9 \<noteq> 0" by (smt (verit) divide_pos_pos zero_less_power)
    obtain v where v: "lot_avg_cost d s p h t (t + L - 1) ?dem = Inr v"
      using lot_avg_cost_total[OF _ _ _ nz, of t s "t + L - 1" p h d] assms False by auto
    obtain c1 where c1: "cand_loop d C s p h t Ls cands = Inr c1" using Cons.IH by blast
    obtain c2 where c2: "cand_loop d C s p h t Ls (cands @ [(L, v)]) = Inr c2"
      using Cons.IH by blast
    show ?thesis
      using False assms(1,6) v c1 c2 by (simp only: cand_loop.simps Let_def) simp
  qed
qed

lemma c_min_of_Min: "cands \<noteq> [] \<Longrightarrow> c_min_of cands = Min (snd ` set cands)"
  by (cases cands) (simp_all add: Min.set_eq_fold[symmetric])

lemma c_max_of_Max: "cands \<noteq> [] \<Longrightarrow> c_max_of cands = Max (snd ` set cands)"
  by (cases cands) (simp_all add: Max.set_eq_fold[symmetric])

lemma c_min_le: "x \<in> set cands \<Longrightarrow> c_min_of cands \<le> snd x"
  by (cases "cands = []") (simp_all add: c_min_of_Min)

lemma c_max_ge: "x \<in> set cands \<Longrightarrow> snd x \<le> c_max_of cands"
  by (cases "cands = []") (simp_all add: c_max_of_Max)

lemma c_min_attained: "cands \<noteq> [] \<Longrightarrow> \<exists>x\<in>set cands. snd x = c_min_of cands"
proof -
  assume a: "cands \<noteq> []"
  then have "Min (snd ` set cands) \<in> snd ` set cands" by (intro Min_in) simp_all
  then obtain x where "x \<in> set cands" "snd x = Min (snd ` set cands)" by (metis imageE)
  then show ?thesis using a by (auto simp: c_min_of_Min)
qed

lemma thresh_ge_c_min:
  assumes "cands \<noteq> []" "0 \<le> alpha"
  shows "c_min_of cands \<le> thresh_of alpha cands"
proof -
  obtain x where "x \<in> set cands" using assms(1) by (cases cands) auto
  then have "c_min_of cands \<le> c_max_of cands" using c_min_le c_max_ge by (meson order_trans)
  then have "0 \<le> alpha * (c_max_of cands - c_min_of cands + 1 / 10 ^ 9)"
    using assms(2) by (intro mult_nonneg_nonneg) simp_all
  then show ?thesis by (simp add: thresh_of_def Let_def)
qed

lemma RCL_nonempty:
  assumes "cands \<noteq> []" "0 \<le> alpha"
  shows "RCL_of alpha cands \<noteq> []"
proof -
  obtain x where x: "x \<in> set cands" "snd x = c_min_of cands"
    using c_min_attained[OF assms(1)] by blast
  then have "snd x \<le> thresh_of alpha cands" using thresh_ge_c_min[OF assms] by simp
  then have "fst x \<in> set (RCL_of alpha cands)"
    using x(1) by (force simp: RCL_of_def)
  then show ?thesis by auto
qed

lemma candidates_at_total:
  assumes "length C = length d" "length s = length d" "length p = length d"
    "length h = length d" "\<forall>x\<in>set d. 0 \<le> x" "t < length d"
  shows "\<exists>cands. candidates_at d C s p h L_max t = Inr cands"
  unfolding candidates_at_def using assms by (rule cand_loop_total)


lemma gr_loop_result:
  "length C = length d \<Longrightarrow> length s = length d \<Longrightarrow> length p = length d \<Longrightarrow>
   length h = length d \<Longrightarrow> \<forall>x\<in>set d. 0 \<le> x \<Longrightarrow> 0 \<le> alpha \<Longrightarrow> length y = length d \<Longrightarrow>
   \<exists>y' k'. gr_loop rnd d C s p h alpha L_max (y, t, k) = Inr (y', k') \<and> length y' = length d \<and>
     (\<forall>i<t. y' ! i = y ! i) \<and> (t < length d \<longrightarrow> y' ! t = 1)"
proof (induction "length d - t" arbitrary: y t k rule: less_induct)
  case less
  show ?case
  proof (cases "t < length d")
    case False
    then show ?thesis using less.prems by (simp add: gr_loop.simps)
  next
    case True
    obtain cands where cands: "candidates_at d C s p h L_max t = Inr cands"
      using candidates_at_total[OF less.prems(1-5) True] by blast
    have ly: "length (y[t := 1]) = length d" using less.prems by simp
    show ?thesis
    proof (cases "cands = []")
      case emp: True
      have lt: "length d - (t + 1) < length d - t" using True by simp
      from less.hyps[OF lt less.prems(1-6) ly, of k]
      obtain y' k' where r: "gr_loop rnd d C s p h alpha L_max (y[t := 1], t + 1, k) = Inr (y', k')"
        "length y' = length d" "\<forall>i<t + 1. y' ! i = y[t := 1] ! i"
        by blast
      have "gr_loop rnd d C s p h alpha L_max (y, t, k) = Inr (y', k')"
        using True cands emp r(1) by (subst gr_loop.simps) simp
      moreover have "y' ! t = 1" using r(3) True less.prems(7) by simp
      moreover have "\<forall>i<t. y' ! i = y ! i" using r(3) by simp
      ultimately show ?thesis using r(2) by blast
    next
      case ne: False
      have "RCL_of alpha cands \<noteq> []" using RCL_nonempty[OF ne less.prems(6)] .
      then obtain L k1 where ch: "random_choice rnd k (RCL_of alpha cands) = Inr (L, k1)"
        by (simp add: random_choice_def)
      have "L \<in> set (RCL_of alpha cands)" using random_choice_in[OF ch] by simp
      then obtain c where "(L, c) \<in> set cands" using RCL_of_subset by blast
      then have L1: "1 \<le> L" using candidates_at_ge1[OF cands] by fastforce
      have lt: "length d - (t + L) < length d - t" using True L1 by simp
      from less.hyps[OF lt less.prems(1-6) ly, of k1]
      obtain y' k' where r: "gr_loop rnd d C s p h alpha L_max (y[t := 1], t + L, k1) = Inr (y', k')"
        "length y' = length d" "\<forall>i<t + L. y' ! i = y[t := 1] ! i"
        by blast
      have "gr_loop rnd d C s p h alpha L_max (y, t, k) = Inr (y', k')"
        using True cands ne ch r(1) by (subst gr_loop.simps) simp
      moreover have "y' ! t = 1" using r(3) True L1 less.prems(7) by simp
      moreover have "\<forall>i<t. y' ! i = y ! i" using r(3) by simp
      ultimately show ?thesis using r(2) by blast
    qed
  qed
qed

lemma greedy_result:
  assumes "length C = length d" "length s = length d" "length p = length d"
    "length h = length d" "\<forall>x\<in>set d. 0 \<le> x" "0 \<le> alpha"
  shows "\<exists>y k'. greedy_randomized_construction rnd k d C s p h alpha L_max = Inr (y, k')
     \<and> length y = length d \<and> (0 < length d \<longrightarrow> y ! 0 = 1)"
  using gr_loop_result[OF assms, of "replicate (length d) 0" rnd L_max 0 k]
  by (auto simp: greedy_randomized_construction_def)


section \<open>Claims about the decoder\<close>

text \<open>
  Claim C3. For every instance and setup vector \<open>y\<close> (all six lists of the length \<open>T\<close>
  of the horizon), \<^verbatim>\<open>decode_solution\<close> returns what the specification describes:
  the production \<open>X\<close> of the backward pass (remaining demand \<open>R\<close> accumulated from the
  last period to the first, \<open>X[t] = min(C[t], R)\<close> at a setup period, subtracted from
  \<open>R\<close>); the score \<open>BIGM + R * PENALTY\<close> with absent \<open>X\<close> and \<open>I\<close> when the residual
  exceeds \<open>1e-6\<close>; the score \<open>BIGM + |inv| * PENALTY\<close> with absent \<open>X\<close> and \<open>I\<close> at the
  first inventory balance below \<open>-1e-6\<close>; and otherwise \<open>(X, I, cost)\<close> with \<open>cost\<close> the
  sum of \<open>s[t] * y[t] + p[t] * X[t] + h[t] * I[t]\<close>. No exception is raised.
\<close>

theorem decode_solution_refines_spec:
  assumes "length y = length d" "length C = length d" "length s = length d"
    "length p = length d" "length h = length d"
  shows "decode_solution y d C s p h = Inr (spec_decode y d C s p h)"
  using assms by (rule decode_solution_spec)

theorem decode_solution_refines_spec_witness:
  "decode_solution [1, 0, 1] [10, 10, 10] [30, 30, 30] [5, 5, 5] [1, 1, 1] [1, 1, 1]
     = Inr (spec_decode [1, 0, 1] [10, 10, 10] [30, 30, 30] [5, 5, 5] [1, 1, 1] [1, 1, 1])
   \<and> spec_decode [1, 0, 1] [10, 10, 10] [30, 30, 30] [5, 5, 5] [1, 1, 1] [1, 1, 1]
     = (Some [20, 0, 10], Some [10, 0, 0], 50)"
proof -
  have "decode_solution [1, 0, 1] [10, 10, 10] [30, 30, 30] [5, 5, 5] [1, 1, 1] [1, 1, 1]
     = Inr (spec_decode [1, 0, 1] [10, 10, 10] [30, 30, 30] [5, 5, 5] [1, 1, 1] [1, 1, 1])"
    by (rule decode_solution_refines_spec) simp_all
  moreover have "spec_decode [1, 0, 1] [10, 10, 10] [30, 30, 30] [5, 5, 5] [1, 1, 1] [1, 1, 1]
     = (Some [20, 0, 10], Some [10, 0, 0], 50)"
    by (simp add: spec_decode_def spec_cost_def upt_rec TOL_def)
  ultimately show ?thesis by simp
qed


text \<open>
  Claim C1, as stated: total capacity at least total demand makes the all-ones vector
  decode to a feasible cost, a score below the penalty range. It fails twice. Capacity
  that comes after the demand cannot serve it, since the backward pass only moves
  production to earlier periods: with demand \<open>[10, 0]\<close> and capacity \<open>[0, 10]\<close> the
  totals are equal and the all-ones vector is penalised. And a feasible cost need not
  be below the penalty range: with a setup cost of \<open>2e15\<close> the all-ones vector has a
  plan whose cost is not below \<open>BIGM\<close>.
\<close>

theorem all_ones_counterexample:
  "sum_list [10, 0 :: real] \<le> sum_list [0, 10 :: real] \<and>
   decode_solution [1, 1] [10, 0] [0, 10] [0, 0] [0, 0] [0, 0]
     = Inr (None, None, BIGM + 10 * PENALTY) \<and>
   sum_list [1 :: real] \<le> sum_list [1 :: real] \<and>
   decode_solution [1] [1] [1] [2 * 10 ^ 15] [0] [0] = Inr (Some [1], Some [0], 2 * 10 ^ 15) \<and>
   \<not> ((2 * 10 ^ 15 :: real) < BIGM)"
  by (simp add: decode_solution_def upt_rec TOL_def BIGM_def)

text \<open>
  Claim C1, amended: for every instance with integer-valued, non-negative demand and
  capacity and a total demand of at most \<open>2^52\<close> in which, for every \<open>k \<le> T\<close>, the
  capacity of the first \<open>k\<close> periods is at least the demand of the first \<open>k\<close> periods,
  the all-ones setup vector decodes to a plan \<open>(X, I, cost)\<close>, a feasible,
  non-penalised result; and its cost is strictly below the penalty range
  (\<open>cost < BIGM\<close>) when the costs are integer-valued and the sum over the periods of
  \<open>|s[t]| + (|p[t]| + |h[t]|) * D\<close>, \<open>D\<close> the total demand, is below \<open>BIGM\<close>.
\<close>

theorem all_ones_feasible:
  assumes "length C = length d" "length s = length d" "length p = length d"
    "length h = length d"
    and "integral d" "integral C" "\<forall>x\<in>set d. 0 \<le> x" "\<forall>c\<in>set C. 0 \<le> c"
    and "sum_list d \<le> 2 ^ 52"
    and "\<forall>k\<le>length d. sum_list (take k d) \<le> sum_list (take k C)"
  shows "\<exists>X I cost. decode_solution (replicate (length d) 1) d C s p h = Inr (Some X, Some I, cost)
     \<and> (integral s \<and> integral p \<and> integral h \<and>
        (\<Sum>t\<leftarrow>[0..<length d]. \<bar>s ! t\<bar> + (\<bar>p ! t\<bar> + \<bar>h ! t\<bar>) * sum_list d) < BIGM
        \<longrightarrow> cost < BIGM)"
proof -
  let ?y = "replicate (length d) (1::int)"
  let ?X = "fst (spec_backward ?y d C)"
  let ?I = "spec_inventory 0 ?X d"
  have len: "length ?y = length d" by simp
  have r0: "snd (spec_backward ?y d C) \<le> 0"
    using spec_backward_ones_residual[OF assms(1), of 0] assms(10) by simp
  then have res: "snd (spec_backward ?y d C) \<le> TOL" by (simp add: TOL_def)
  have nn: "\<forall>n\<le>length d. 0 \<le> snd (spec_backward (drop n ?y) (drop n d) (drop n C))"
  proof (intro allI impI)
    fix n assume "n \<le> length d"
    show "0 \<le> snd (spec_backward (drop n ?y) (drop n d) (drop n C))"
      using assms(1) by (intro spec_backward_residual_nonneg) simp_all
  qed
  have dec: "decode_solution ?y d C s p h = Inr (Some ?X, Some ?I, spec_cost ?y s p h ?X ?I)"
    using decode_solution_spec[OF len assms(1-4)] spec_decode_plan[OF len assms(1) res nn]
    by simp
  have lX: "length ?X = length d" using length_spec_backward[OF len assms(1)] .
  have lI: "length ?I = length ?X" using length_spec_inventory[OF lX, of 0] lX by simp
  note rg = spec_backward_range[OF len assms(1,7,8)]
  have R0: "snd (spec_backward ?y d C) = 0" using r0 rg by simp
  have Xr: "\<forall>x\<in>set ?X. 0 \<le> x \<and> x \<le> sum_list d" using rg by simp
  have Ir: "\<forall>v\<in>set ?I. 0 \<le> v \<and> v \<le> sum_list d"
  proof
    fix v assume "v \<in> set ?I"
    from spec_inventory_elem[OF lX this] obtain n where
      n: "n \<le> length d" "v = 0 + sum_list (take n ?X) - sum_list (take n d)" by blast
    let ?Rn = "snd (spec_backward (drop n ?y) (drop n d) (drop n C))"
    have v: "v = ?Rn" using spec_inventory_balance[OF len assms(1) n(1)] n(2) R0 by simp
    have dn: "\<forall>x\<in>set (drop n d). 0 \<le> x" using assms(7) by (meson in_set_dropD)
    have Cn: "\<forall>c\<in>set (drop n C). 0 \<le> c" using assms(8) by (meson in_set_dropD)
    have "0 \<le> ?Rn \<and> ?Rn \<le> sum_list (drop n d)"
      using spec_backward_range[of "drop n ?y" "drop n d" "drop n C"] assms(1) dn Cn by simp
    moreover have "sum_list d = sum_list (take n d) + sum_list (drop n d)"
      by (metis append_take_drop_id sum_list_append)
    moreover have "0 \<le> sum_list (take n d)"
      using assms(7) by (intro sum_list_nonneg) (meson in_set_takeD)
    ultimately show "0 \<le> v \<and> v \<le> sum_list d" using v by simp
  qed
  have y1: "\<forall>t<length ?X. ?y ! t = 1" using lX by simp
  have "spec_cost ?y s p h ?X ?I
      \<le> (\<Sum>t\<leftarrow>[0..<length d]. \<bar>s ! t\<bar> + (\<bar>p ! t\<bar> + \<bar>h ! t\<bar>) * sum_list d)"
    using spec_cost_bound[OF Xr Ir lI y1, of s p h] lX by simp
  then show ?thesis using dec by auto
qed

theorem all_ones_feasible_witness:
  "\<exists>X I cost. decode_solution (replicate (length [10, 10, 10 :: real]) 1) [10, 10, 10]
      [30, 30, 30] [5, 5, 5] [1, 1, 1] [1, 1, 1] = Inr (Some X, Some I, cost) \<and> cost < BIGM"
proof -
  have pre: "\<forall>k\<le>length [10, 10, 10 :: real]. sum_list (take k [10, 10, 10 :: real])
      \<le> sum_list (take k [30, 30, 30])"
  proof (intro allI impI)
    fix k :: nat assume "k \<le> length [10, 10, 10 :: real]"
    then have "k = 0 \<or> k = 1 \<or> k = 2 \<or> k = 3" by auto
    then show "sum_list (take k [10, 10, 10 :: real]) \<le> sum_list (take k [30, 30, 30])"
      by auto
  qed
  have b: "integral [5, 5, 5] \<and> integral [1, 1, 1] \<and> integral [1, 1, 1] \<and>
      (\<Sum>t\<leftarrow>[0..<length [10, 10, 10 :: real]].
         \<bar>[5, 5, 5] ! t\<bar> + (\<bar>[1, 1, 1] ! t\<bar> + \<bar>[1, 1, 1 :: real] ! t\<bar>) * sum_list [10, 10, 10])
        < BIGM"
    by (simp add: integral_def upt_rec BIGM_def)
  have "\<exists>X I cost. decode_solution (replicate (length [10, 10, 10 :: real]) 1) [10, 10, 10]
      [30, 30, 30] [5, 5, 5] [1, 1, 1] [1, 1, 1] = Inr (Some X, Some I, cost)
     \<and> (integral [5, 5, 5] \<and> integral [1, 1, 1] \<and> integral [1, 1, 1] \<and>
        (\<Sum>t\<leftarrow>[0..<length [10, 10, 10 :: real]].
           \<bar>[5, 5, 5] ! t\<bar> + (\<bar>[1, 1, 1] ! t\<bar> + \<bar>[1, 1, 1 :: real] ! t\<bar>) * sum_list [10, 10, 10])
          < BIGM
        \<longrightarrow> cost < BIGM)"
    using pre by (intro all_ones_feasible) (simp_all add: integral_def)
  then show ?thesis using b by blast
qed

text \<open>
  Claim C2, as stated: a feasible score is always smaller than an infeasible one. It
  fails for a setup cost above \<open>BIGM\<close>: the constants only separate the two ranges for
  costs up to \<open>BIGM\<close>.
\<close>

theorem feasible_above_infeasible_counterexample:
  "decode_solution [1] [1] [1] [2 * 10 ^ 15] [0] [0] = Inr (Some [1], Some [0], 2 * 10 ^ 15) \<and>
   decode_solution [0] [1] [1] [2 * 10 ^ 15] [0] [0] = Inr (None, None, 10 ^ 15 + 10 ^ 6) \<and>
   \<not> ((2 * 10 ^ 15 :: real) < 10 ^ 15 + 10 ^ 6)"
  by (simp add: decode_solution_def TOL_def BIGM_def PENALTY_def)

text \<open>
  Claim C2, amended: for every instance and setup vectors \<open>y1\<close>, \<open>y2\<close>, if the decoder
  returns a plan with cost \<open>c1\<close> for \<open>y1\<close> and a penalised score \<open>c2\<close> for \<open>y2\<close>, and
  \<open>c1\<close> is at most \<open>BIGM\<close>, then \<open>c1 < c2\<close> (every penalised score exceeds \<open>BIGM + 1\<close>).
\<close>

theorem feasible_below_infeasible:
  assumes "decode_solution y1 d C s p h = Inr (Some X, Some I, c1)"
    and "decode_solution y2 d C s p h = Inr (None, None, c2)"
    and "c1 \<le> BIGM"
  shows "c1 < c2"
  using infeasible_score[OF assms(2)] assms(3) by simp

theorem feasible_below_infeasible_witness:
  "decode_solution [1] [1] [1] [5] [1] [1] = Inr (Some [1], Some [0], 6) \<and>
   decode_solution [0] [1] [1] [5] [1] [1] = Inr (None, None, BIGM + 1 * PENALTY) \<and>
   (6::real) \<le> BIGM \<and> (6::real) < BIGM + 1 * PENALTY"
proof -
  have a: "decode_solution [1] [1] [1] [5] [1] [1] = Inr (Some [1], Some [0], 6)"
    by (simp add: decode_solution_def TOL_def)
  have b: "decode_solution [0] [1] [1] [5] [1] [1] = Inr (None, None, BIGM + 1 * PENALTY)"
    by (simp add: decode_solution_def TOL_def)
  have c: "(6::real) \<le> BIGM" by (simp add: BIGM_def)
  from feasible_below_infeasible[OF a b c] a b c show ?thesis by simp
qed


section \<open>Claims about the constructor\<close>

text \<open>
  The restricted candidate list at \<open>alpha = 0\<close>: the threshold is the minimum cost, so
  every lot the list holds has the minimum average cost. (At \<open>alpha = 1\<close> the threshold
  is \<open>c_max + 1e-9\<close> in exact arithmetic; the source rounds the sum
  \<open>c_min + (c_max - c_min + 1e-9)\<close>, which can fall below \<open>c_max\<close>, and nothing is
  proved here about that case.)
\<close>

lemma thresh_of_0: "thresh_of 0 cands = c_min_of cands"
  by (simp add: thresh_of_def)

lemma RCL_of_0_min:
  assumes "L \<in> set (RCL_of 0 cands)"
  shows "\<exists>c. (L, c) \<in> set cands \<and> c = c_min_of cands"
proof -
  from assms obtain c where c: "(L, c) \<in> set cands" "c \<le> c_min_of cands"
    by (auto simp: RCL_of_def thresh_of_0)
  moreover have "c_min_of cands \<le> c" using c_min_le[OF c(1)] by simp
  ultimately show ?thesis by auto
qed

lemma gr_loop_choose:
  assumes "t < length d" "candidates_at d C s p h L_max t = Inr cands" "cands \<noteq> []"
    "random_choice rnd k (RCL_of alpha cands) = Inr (L, k')"
  shows "gr_loop rnd d C s p h alpha L_max (y, t, k)
       = gr_loop rnd d C s p h alpha L_max (y[t := 1], t + L, k')"
  using assms by (subst gr_loop.simps) simp

lemma candidates_at_example:
  "candidates_at [1, 1] [2, 2] [5, 5] [0, 0] [0, 0] 2 0
     = Inr [(1, 5 / (1 + 1 / 10 ^ 9)), (2, 5 / (2 + 1 / 10 ^ 9))]"
  by (simp add: candidates_at_def lot_avg_cost_def upt_rec TOL_def Let_def)

lemma gr_loop_forced:
  assumes "t < length d" "candidates_at d C s p h L_max t = Inr []"
  shows "gr_loop rnd d C s p h alpha L_max (y, t, k)
       = gr_loop rnd d C s p h alpha L_max (y[t := 1], t + 1, k)"
  using assms by (subst gr_loop.simps) simp

lemma gr_loop_visits:
  assumes "length C = length d" "length s = length d" "length p = length d"
    "length h = length d" "\<forall>x\<in>set d. 0 \<le> x" "0 \<le> alpha"
  shows "length y = length d \<Longrightarrow>
    gr_loop rnd d C s p h alpha L_max (y, t, k) = Inr (y', k') \<Longrightarrow>
    visits rnd d C s p h alpha L_max (t, k) u \<Longrightarrow> y' ! u = 1"
proof (induction "length d - t" arbitrary: y t k rule: less_induct)
  case less
  have ly: "length (y[t := 1]) = length d" using less.prems(1) by simp
  from less.prems(3) show ?case
  proof (cases rule: visits.cases)
    case here
    then show ?thesis
      using gr_loop_result[OF assms less.prems(1), of rnd L_max t k] less.prems(2) by auto
  next
    case forced
    have lt: "length d - (t + 1) < length d - t" using forced(1) by simp
    have "gr_loop rnd d C s p h alpha L_max (y[t := 1], t + 1, k) = Inr (y', k')"
      using gr_loop_forced[OF forced(1,2)] less.prems(2) by simp
    from less.hyps[OF lt ly this forced(3)] show ?thesis .
  next
    case (chosen candidates L_chosen k1)
    have "L_chosen \<in> set (RCL_of alpha candidates)" using random_choice_in[OF chosen(4)] by simp
    then obtain c where "(L_chosen, c) \<in> set candidates" using RCL_of_subset by blast
    then have "1 \<le> L_chosen" using candidates_at_ge1[OF chosen(2)] by fastforce
    then have lt: "length d - (t + L_chosen) < length d - t" using chosen(1) by simp
    have "gr_loop rnd d C s p h alpha L_max (y[t := 1], t + L_chosen, k1) = Inr (y', k')"
      using gr_loop_choose[OF chosen(1,2,3,4)] less.prems(2) by simp
    from less.hyps[OF lt ly this chosen(5)] show ?thesis .
  qed
qed

lemma greedy_negative_alpha:
  "greedy_randomized_construction first_choice 0 [1] [1] [0] [0] [0] (- 1) 1 = Inl IndexError"
proof -
  have c: "candidates_at [1] [1] [0] [0] [0] 1 0 = Inr [(1, 0)]"
    by (simp add: candidates_at_def lot_avg_cost_def TOL_def Let_def upt_rec)
  have r: "RCL_of (- 1) [(1, 0)] = []"
    by (simp add: RCL_of_def thresh_of_def)
  show ?thesis
    unfolding greedy_randomized_construction_def
    apply (subst gr_loop.simps)
    using c r by (simp add: random_choice_def)
qed

text \<open>
  Claim C10, as stated: for any \<open>alpha\<close> the constructor returns a vector with
  \<open>y[0] = 1\<close>. It fails for a negative \<open>alpha\<close>: the threshold falls below the
  minimum cost, the restricted candidate list is empty and \<^verbatim>\<open>random.choice\<close> raises.
\<close>

theorem constructor_negative_alpha_counterexample:
  "greedy_randomized_construction first_choice 0 [1] [1] [0] [0] [0] (- 1) 1 = Inl IndexError"
  by (rule greedy_negative_alpha)

text \<open>
  Claim C10, amended: for every instance with \<open>T \<ge> 1\<close> (lists of length \<open>T\<close>,
  non-negative demand, data of magnitude at most \<open>2^100\<close>), every \<open>alpha \<ge> 0\<close> and
  every \<open>L_max\<close>, the constructor returns a setup vector of length \<open>T\<close> with
  \<open>y[0] = 1\<close>, and with \<open>y[u] = 1\<close> at every cursor position \<open>u\<close> that the loop visits.
\<close>

theorem constructor_sets_first_period:
  assumes "length C = length d" "length s = length d" "length p = length d"
    "length h = length d" "\<forall>x\<in>set d. 0 \<le> x"
    and "moderate d" "moderate s" "moderate p" "moderate h"
    and "0 < length d" "0 \<le> alpha"
  shows "\<exists>y k'. greedy_randomized_construction rnd k d C s p h alpha L_max = Inr (y, k')
     \<and> length y = length d \<and> y ! 0 = 1
     \<and> (\<forall>u. visits rnd d C s p h alpha L_max (0, k) u \<longrightarrow> y ! u = 1)"
proof -
  from greedy_result[OF assms(1-5,11), of rnd k L_max] assms(10) obtain y k' where
    g: "greedy_randomized_construction rnd k d C s p h alpha L_max = Inr (y, k')"
    and l: "length y = length d" and y0: "y ! 0 = 1" by auto
  have "y ! u = 1" if "visits rnd d C s p h alpha L_max (0, k) u" for u
    using gr_loop_visits[OF assms(1-5,11) _ g[unfolded greedy_randomized_construction_def] that]
    by simp
  then show ?thesis using g l y0 by blast
qed

theorem constructor_sets_first_period_witness:
  "\<exists>y k'. greedy_randomized_construction first_choice 0 [1, 1] [2, 2] [5, 5] [0, 0] [0, 0] 0 2
       = Inr (y, k') \<and> length y = length [1, 1 :: real] \<and> y ! 0 = 1
     \<and> (\<forall>u. visits first_choice [1, 1] [2, 2] [5, 5] [0, 0] [0, 0] 0 2 (0, 0) u \<longrightarrow> y ! u = 1)"
  by (rule constructor_sets_first_period) (simp_all add: moderate_def)


section \<open>Local search returns, and what it returns\<close>

lemma time_up_mono: "time_up clk time_limit start_time k = (b, k1) \<Longrightarrow> k \<le> k1"
  by (auto simp: time_up_def split: option.splits)

lemma decode_solution_total:
  assumes "length y = length d" "length C = length d" "length s = length d"
    "length p = length d" "length h = length d"
  shows "\<exists>r. decode_solution y d C s p h = Inr r"
  using decode_solution_spec[OF assms] by blast

lemma sweep_total:
  assumes "length C = length d" "length s = length d" "length p = length d" "length h = length d"
  shows "length y = length d \<Longrightarrow> \<forall>t\<in>set ts. t < length d \<Longrightarrow>
    \<exists>res. sweep clk d C s p h time_limit start_time ts (y, bc, k) = Inr res"
proof (induction ts arbitrary: k)
  case Nil
  then show ?case by auto
next
  case (Cons t ts)
  have ly: "t < length y" using Cons.prems by simp
  let ?y1 = "y[t := (y ! t) XOR 1]"
  obtain r where r: "decode_solution ?y1 d C s p h = Inr r"
    using decode_solution_total[of ?y1 d C s p h] assms Cons.prems(1) by auto
  obtain b k1 where tu: "time_up clk time_limit start_time k = (b, k1)"
    by (cases "time_up clk time_limit start_time k")
  have "\<exists>res. sweep clk d C s p h time_limit start_time ts (y, bc, k1) = Inr res"
    using Cons.IH Cons.prems by simp
  then show ?case
    using tu ly r flip_back[OF ly] by (cases b) (auto simp: Let_def)
qed

lemma ls_loop_result:
  assumes "decode_solution y d C s p h = Inr r" "cost_of r = bc"
    and "ls_loop clk d C s p h time_limit start_time (y, bc, k) = Inr (y', best', k')"
  shows "(\<exists>r'. decode_solution y' d C s p h = Inr r' \<and> cost_of r' = best') \<and>
     best' \<le> bc \<and> k \<le> k' \<and> length y' = length y"
  using assms
proof (induction "card {z \<in> flips y. dcost d C s p h z < bc}"
    arbitrary: y bc k r rule: less_induct)
  case less
  obtain b k1 where tu: "time_up clk time_limit start_time k = (b, k1)"
    by (cases "time_up clk time_limit start_time k")
  have kk: "k \<le> k1" using time_up_mono[OF tu] .
  show ?case
  proof (cases b)
    case True
    then have "y' = y" "best' = bc" "k' = k1"
      using less.prems(3) tu by (subst (asm) ls_loop.simps, simp)+
    then show ?thesis using less.prems(1,2) kk by simp
  next
    case False
    obtain res where res: "sweep clk d C s p h time_limit start_time [0..<length d] (y, bc, k1) = Inr res"
      using less.prems(3) tu False
      by (subst (asm) ls_loop.simps) (simp split: sum.splits)
    obtain y2 b2 imp k2 where res2: "res = (y2, b2, imp, k2)" by (cases res) auto
    note sr = sweep_result[OF res[unfolded res2]]
    show ?thesis
    proof (cases imp)
      case True
      then have impT: "imp = True" by simp
      have rec: "ls_loop clk d C s p h time_limit start_time (y2, b2, k2) = Inr (y', best', k')"
        using less.prems(3) tu False res res2 True by (subst (asm) ls_loop.simps) simp
      from sr True obtain r2 where r2: "decode_solution y2 d C s p h = Inr r2" "cost_of r2 = b2"
        and lt: "b2 < bc" and ly: "length y2 = length y" and k12: "k1 \<le> k2"
        by auto
      have m: "card {z \<in> flips y2. dcost d C s p h z < b2}
          < card {z \<in> flips y. dcost d C s p h z < bc}"
        using sweep_measure[OF res[unfolded res2 impT]] .
      from less.hyps[OF m r2 rec] show ?thesis using lt ly kk k12 by auto
    next
      case False
      then have "y' = y2" "best' = b2" "k' = k2"
        using less.prems(3) tu \<open>\<not> b\<close> res res2 by (subst (asm) ls_loop.simps, simp)+
      then show ?thesis using sr False less.prems(1,2) kk by auto
    qed
  qed
qed

lemma ls_loop_total:
  assumes "length C = length d" "length s = length d" "length p = length d" "length h = length d"
  shows "length y = length d \<Longrightarrow>
    \<exists>res. ls_loop clk d C s p h time_limit start_time (y, bc, k) = Inr res"
proof (induction "card {z \<in> flips y. dcost d C s p h z < bc}"
    arbitrary: y bc k rule: less_induct)
  case less
  obtain b k1 where tu: "time_up clk time_limit start_time k = (b, k1)"
    by (cases "time_up clk time_limit start_time k")
  show ?case
  proof (cases b)
    case True
    then show ?thesis using tu by (subst ls_loop.simps) simp
  next
    case False
    obtain res where res: "sweep clk d C s p h time_limit start_time [0..<length d] (y, bc, k1) = Inr res"
    proof -
      have "\<forall>t\<in>set [0..<length d]. t < length d" by simp
      from sweep_total[OF assms less.prems this] show ?thesis using that by blast
    qed
    obtain y2 b2 imp k2 where res2: "res = (y2, b2, imp, k2)" by (cases res) auto
    note sr = sweep_result[OF res[unfolded res2]]
    show ?thesis
    proof (cases imp)
      case True
      then have impT: "imp = True" by simp
      have m: "card {z \<in> flips y2. dcost d C s p h z < b2}
          < card {z \<in> flips y. dcost d C s p h z < bc}"
        using sweep_measure[OF res[unfolded res2 impT]] .
      have ly: "length y2 = length d" using sr True less.prems by simp
      from less.hyps[OF m ly, of k2] show ?thesis
        using tu False res res2 True by (subst ls_loop.simps) simp
    next
      case nimp: False
      then show ?thesis using tu False res res2 by (subst ls_loop.simps) simp
    qed
  qed
qed

lemma local_search_result:
  assumes "local_search clk k y d C s p h time_limit start_time = Inr (y', cost', k')"
  shows "\<exists>r r'. decode_solution y d C s p h = Inr r \<and> cost' \<le> cost_of r \<and>
     decode_solution y' d C s p h = Inr r' \<and> cost_of r' = cost' \<and> k \<le> k' \<and> length y' = length y"
proof -
  obtain r where r: "decode_solution y d C s p h = Inr r"
    using assms by (cases "decode_solution y d C s p h") (simp_all add: local_search_def)
  show ?thesis
  proof (cases start_time)
    case None
    then have "ls_loop clk d C s p h time_limit (clk k) (y, cost_of r, Suc k) = Inr (y', cost', k')"
      using assms r by (simp add: local_search_def)
    from ls_loop_result[OF r refl this] show ?thesis using r by auto
  next
    case (Some st)
    then have "ls_loop clk d C s p h time_limit st (y, cost_of r, k) = Inr (y', cost', k')"
      using assms r by (simp add: local_search_def)
    from ls_loop_result[OF r refl this] show ?thesis using r by auto
  qed
qed

lemma local_search_total:
  assumes "length y = length d" "length C = length d" "length s = length d"
    "length p = length d" "length h = length d"
  shows "\<exists>res. local_search clk k y d C s p h time_limit start_time = Inr res"
proof -
  obtain r where r: "decode_solution y d C s p h = Inr r"
    using decode_solution_total[OF assms] by blast
  show ?thesis
    using r ls_loop_total[OF assms(2-5) assms(1)]
    by (cases start_time) (simp_all add: local_search_def)
qed

text \<open>
  Claim C4. For every instance, every starting vector \<open>y\<close> (lists of length \<open>T\<close>) and
  every deadline configuration (any clock, any \<open>time_limit\<close> and \<open>start_time\<close>, given
  or not), local search returns, and the cost it returns is at most the decoded cost of
  the starting \<open>y\<close>: also when a deadline test stops the search between two flips.
\<close>

theorem local_search_never_worse:
  assumes "length y = length d" "length C = length d" "length s = length d"
    "length p = length d" "length h = length d"
  shows "\<exists>y' cost' k' r. local_search clk k y d C s p h time_limit start_time = Inr (y', cost', k')
     \<and> decode_solution y d C s p h = Inr r \<and> cost' \<le> cost_of r"
proof -
  obtain y' cost' k' where
    ls: "local_search clk k y d C s p h time_limit start_time = Inr (y', cost', k')"
    using local_search_total[OF assms] by (metis prod_cases3)
  from local_search_result[OF ls] ls show ?thesis by blast
qed

theorem local_search_never_worse_witness:
  "\<exists>y' cost' k' r.
     local_search frozen_clock 0 [1, 1] [1, 1] [2, 2] [5, 5] [0, 0] [0, 0] (Some 0) None
       = Inr (y', cost', k')
     \<and> decode_solution [1, 1] [1, 1] [2, 2] [5, 5] [0, 0] [0, 0] = Inr r \<and> cost' \<le> cost_of r"
  by (rule local_search_never_worse) simp_all


section \<open>The driver's loop\<close>

text \<open>The ways through one iteration of the loop that end in a result.\<close>

lemma grasp_loop_Cons:
  assumes "grasp_loop clk rnd d C s p h alpha L_max tlim st0 (it # its) st = Inr st'"
  obtains
    (stop) k1 where "ck st \<le> k1" "st' = st\<lparr>ck := k1\<rparr>"
  | (skip) k1 yc r1 res where "ck st \<le> k1"
      "greedy_randomized_construction rnd (rk st) d C s p h alpha (min L_max (int (length d)))
         = Inr (yc, r1)"
      "decode_solution yc d C s p h = Inr res" "BIGM / 2 \<le> cost_of res"
      "grasp_loop clk rnd d C s p h alpha L_max tlim st0 its (st\<lparr>rk := r1, ck := k1\<rparr>) = Inr st'"
  | (keep) k1 yc r1 res y cost k2 where "ck st \<le> k1"
      "greedy_randomized_construction rnd (rk st) d C s p h alpha (min L_max (int (length d)))
         = Inr (yc, r1)"
      "decode_solution yc d C s p h = Inr res" "cost_of res < BIGM / 2"
      "local_search clk k1 yc d C s p h tlim (Some st0) = Inr (y, cost, k2)"
      "\<not> cost < best_cost st"
      "grasp_loop clk rnd d C s p h alpha L_max tlim st0 its (st\<lparr>rk := r1, ck := k2\<rparr>) = Inr st'"
  | (improve) k1 yc r1 res y cost k2 where "ck st \<le> k1"
      "greedy_randomized_construction rnd (rk st) d C s p h alpha (min L_max (int (length d)))
         = Inr (yc, r1)"
      "decode_solution yc d C s p h = Inr res" "cost_of res < BIGM / 2"
      "local_search clk k1 yc d C s p h tlim (Some st0) = Inr (y, cost, k2)"
      "cost < best_cost st"
      "grasp_loop clk rnd d C s p h alpha L_max tlim st0 its
         \<lparr>best_y = y, best_cost = cost,
          log_convergencia = log_convergencia st @ [(clk k2 - st0, cost)],
          rk = r1, ck = Suc k2\<rparr> = Inr st'"
proof -
  obtain b k1 where tu: "time_up clk tlim st0 (ck st) = (b, k1)"
    by (cases "time_up clk tlim st0 (ck st)")
  have kk: "ck st \<le> k1" using time_up_mono[OF tu] .
  show thesis
  proof (cases b)
    case True
    then show thesis using assms tu kk stop by simp
  next
    case nb: False
    obtain yc r1 where g: "greedy_randomized_construction rnd (rk st) d C s p h alpha
        (min L_max (int (length d))) = Inr (yc, r1)"
      using assms tu nb
      by (cases "greedy_randomized_construction rnd (rk st) d C s p h alpha
            (min L_max (int (length d)))") auto
    obtain res where dc: "decode_solution yc d C s p h = Inr res"
      using assms tu nb g by (cases "decode_solution yc d C s p h") auto
    show thesis
    proof (cases "BIGM / 2 \<le> cost_of res")
      case True
      then show thesis using assms tu nb g dc kk skip by simp
    next
      case nf: False
      obtain y cost k2 where ls: "local_search clk k1 yc d C s p h tlim (Some st0) = Inr (y, cost, k2)"
        using assms tu nb g dc nf
        by (cases "local_search clk k1 yc d C s p h tlim (Some st0)") auto
      show thesis
      proof (cases "cost < best_cost st")
        case True
        then show thesis using assms tu nb g dc nf ls kk improve[of k1 yc r1 res y cost k2] by simp
      next
        case False
        then show thesis using assms tu nb g dc nf ls kk keep[of k1 yc r1 res y cost k2] by simp
      qed
    qed
  qed
qed

lemma driver_inv_improve:
  assumes inv: "driver_inv d C s p h st"
    and ls: "local_search clk k1 yc d C s p h tlim (Some st0) = Inr (y, cost, k2)"
    and lt: "cost < best_cost st"
  shows "driver_inv d C s p h
     \<lparr>best_y = y, best_cost = cost,
      log_convergencia = log_convergencia st @ [(t, cost)], rk = r1, ck = k\<rparr>"
proof -
  from local_search_result[OF ls] obtain r' where
    r': "decode_solution y d C s p h = Inr r'" "cost_of r' = cost" by blast
  have a: "\<forall>c\<in>set (map snd (log_convergencia st)). cost < c"
  proof
    fix c assume c: "c \<in> set (map snd (log_convergencia st))"
    let ?cs = "map snd (log_convergencia st)"
    have ne: "?cs \<noteq> []" using inv by (simp add: driver_inv_def)
    have l: "last ?cs = best_cost st" using inv ne by (simp add: driver_inv_def last_map)
    have srt: "sorted_wrt (>) ?cs" using inv by (simp add: driver_inv_def)
    have "?cs = butlast ?cs @ [last ?cs]" using ne by simp
    then have "sorted_wrt (>) (butlast ?cs @ [last ?cs])" using srt by simp
    then have "\<forall>x\<in>set (butlast ?cs). last ?cs < x" by (simp add: sorted_wrt_append)
    moreover have "c \<in> set (butlast ?cs) \<or> c = last ?cs"
      using c ne by (metis \<open>?cs = butlast ?cs @ [last ?cs]\<close> Un_iff empty_iff insert_iff
          list.set(1) list.simps(15) set_append)
    ultimately have "best_cost st \<le> c" using l by auto
    then show "cost < c" using lt by simp
  qed
  show ?thesis
    using inv r' a by (auto simp: driver_inv_def sorted_wrt_append)
qed

lemma grasp_loop_inv:
  "grasp_loop clk rnd d C s p h alpha L_max tlim st0 its st = Inr st' \<Longrightarrow>
   driver_inv d C s p h st \<Longrightarrow>
   driver_inv d C s p h st' \<and> best_cost st' \<le> best_cost st \<and> ck st \<le> ck st' \<and>
   hd (log_convergencia st') = hd (log_convergencia st)"
proof (induction its arbitrary: st)
  case Nil
  then show ?case by simp
next
  case (Cons it its)
  from Cons.prems(1) show ?case
  proof (cases rule: grasp_loop_Cons)
    case (stop k1)
    then show ?thesis using Cons.prems(2) by (simp add: driver_inv_def)
  next
    case (skip k1 yc r1 res)
    have "driver_inv d C s p h (st\<lparr>rk := r1, ck := k1\<rparr>)"
      using Cons.prems(2) by (simp add: driver_inv_def)
    from Cons.IH[OF skip(5) this] skip(1) show ?thesis by simp
  next
    case (keep k1 yc r1 res y cost k2)
    have "driver_inv d C s p h (st\<lparr>rk := r1, ck := k2\<rparr>)"
      using Cons.prems(2) by (simp add: driver_inv_def)
    moreover have "k1 \<le> k2" using local_search_result[OF keep(5)] by blast
    ultimately show ?thesis using Cons.IH[OF keep(7)] keep(1) by fastforce
  next
    case (improve k1 yc r1 res y cost k2)
    have ne: "log_convergencia st \<noteq> []" using Cons.prems(2) by (simp add: driver_inv_def)
    have "k1 \<le> k2" using local_search_result[OF improve(5)] by blast
    moreover note Cons.IH[OF improve(7) driver_inv_improve[OF Cons.prems(2) improve(5,6)]]
    ultimately show ?thesis using improve(1,6) ne by auto
  qed
qed

lemma grasp_loop_times:
  assumes m: "mono clk"
  shows "grasp_loop clk rnd d C s p h alpha L_max tlim st0 its st = Inr st' \<Longrightarrow>
   times_ok clk st0 st \<Longrightarrow> times_ok clk st0 st'"
proof (induction its arbitrary: st)
  case Nil
  then show ?case by simp
next
  case (Cons it its)
  have up: "times_ok clk st0 (st\<lparr>rk := r, ck := k\<rparr>)" if "ck st \<le> k" for r k
    using Cons.prems(2) that unfolding times_ok_def by (auto intro: order_trans)
  from Cons.prems(1) show ?case
  proof (cases rule: grasp_loop_Cons)
    case (stop k1)
    then show ?thesis using up[of k1 "rk st"] by simp
  next
    case (skip k1 yc r1 res)
    from Cons.IH[OF skip(5) up[OF skip(1)]] show ?thesis .
  next
    case (keep k1 yc r1 res y cost k2)
    have "k1 \<le> k2" using local_search_result[OF keep(5)] by blast
    then have "ck st \<le> k2" using keep(1) by simp
    from Cons.IH[OF keep(7) up[OF this]] show ?thesis .
  next
    case (improve k1 yc r1 res y cost k2)
    have "k1 \<le> k2" using local_search_result[OF improve(5)] by blast
    then have k: "ck st \<le> k2" using improve(1) by simp
    have c1: "1 \<le> ck st" and ne: "log_convergencia st \<noteq> []"
      using Cons.prems(2) by (simp_all add: times_ok_def)
    have mk: "clk i \<le> clk j" if "i \<le> j" for i j using m that by (simp add: monoD)
    have "times_ok clk st0
       \<lparr>best_y = y, best_cost = cost,
        log_convergencia = log_convergencia st @ [(clk k2 - st0, cost)],
        rk = r1, ck = Suc k2\<rparr>"
      unfolding times_ok_def
    proof (intro conjI ballI allI impI)
      fix t j
      assume t: "t \<in> set (map fst (tl (log_convergencia
          \<lparr>best_y = y, best_cost = cost,
           log_convergencia = log_convergencia st @ [(clk k2 - st0, cost)],
           rk = r1, ck = Suc k2\<rparr>)))"
      then have t': "t \<in> set (map fst (tl (log_convergencia st))) \<or> t = clk k2 - st0"
        using ne by auto
      show "clk 1 - st0 \<le> t"
        using t' Cons.prems(2) mk[of 1 k2] c1 k unfolding times_ok_def by auto
      assume "ck \<lparr>best_y = y, best_cost = cost,
           log_convergencia = log_convergencia st @ [(clk k2 - st0, cost)],
           rk = r1, ck = Suc k2\<rparr> \<le> j"
      then have j: "Suc k2 \<le> j" by simp
      show "t \<le> clk j - st0"
        using t' Cons.prems(2) mk[of k2 j] j k unfolding times_ok_def by auto
    next
      show "sorted (map fst (tl (log_convergencia
          \<lparr>best_y = y, best_cost = cost,
           log_convergencia = log_convergencia st @ [(clk k2 - st0, cost)],
           rk = r1, ck = Suc k2\<rparr>)))"
        using ne Cons.prems(2) k unfolding times_ok_def by (auto simp: sorted_append)
    qed (use ne c1 in simp_all)
    from Cons.IH[OF improve(7) this] show ?thesis .
  qed
qed

lemma grasp_loop_total:
  assumes "length C = length d" "length s = length d" "length p = length d"
    "length h = length d" "\<forall>x\<in>set d. 0 \<le> x" "0 \<le> alpha"
  shows "length (best_y st) = length d \<Longrightarrow>
    \<exists>st'. grasp_loop clk rnd d C s p h alpha L_max tlim st0 its st = Inr st' \<and>
      length (best_y st') = length d"
proof (induction its arbitrary: st)
  case Nil
  then show ?case by simp
next
  case (Cons it its)
  obtain b k1 where tu: "time_up clk tlim st0 (ck st) = (b, k1)"
    by (cases "time_up clk tlim st0 (ck st)")
  show ?case
  proof (cases b)
    case True
    then show ?thesis using tu Cons.prems by simp
  next
    case nb: False
    obtain yc r1 where g: "greedy_randomized_construction rnd (rk st) d C s p h alpha
        (min L_max (int (length d))) = Inr (yc, r1)" and lyc: "length yc = length d"
      using greedy_result[OF assms, of rnd "rk st" "min L_max (int (length d))"] by blast
    obtain res where dc: "decode_solution yc d C s p h = Inr res"
      using decode_solution_total[OF lyc assms(1-4)] by blast
    show ?thesis
    proof (cases "BIGM / 2 \<le> cost_of res")
      case True
      have "length (best_y (st\<lparr>rk := r1, ck := k1\<rparr>)) = length d" using Cons.prems by simp
      from Cons.IH[OF this] show ?thesis using tu nb g dc True by simp
    next
      case nf: False
      obtain y cost k2 where ls: "local_search clk k1 yc d C s p h tlim (Some st0) = Inr (y, cost, k2)"
        using local_search_total[OF lyc assms(1-4)] by (metis prod_cases3)
      have ly: "length y = length d" using local_search_result[OF ls] lyc by auto
      show ?thesis
      proof (cases "cost < best_cost st")
        case True
        have "length (best_y \<lparr>best_y = y, best_cost = cost,
            log_convergencia = log_convergencia st @ [(clk k2 - st0, cost)],
            rk = r1, ck = Suc k2\<rparr>) = length d" using ly by simp
        from Cons.IH[OF this] show ?thesis using tu nb g dc nf ls True by simp
      next
        case False
        have "length (best_y (st\<lparr>rk := r1, ck := k2\<rparr>)) = length d" using Cons.prems by simp
        from Cons.IH[OF this] show ?thesis using tu nb g dc nf ls False by simp
      qed
    qed
  qed
qed

lemma grasp_loop_all_infeasible:
  assumes "length C = length d" "length s = length d" "length p = length d"
    "length h = length d" "\<forall>x\<in>set d. 0 \<le> x" "0 \<le> alpha"
    and inf: "\<forall>y. length y = length d \<longrightarrow>
      (\<exists>res. decode_solution y d C s p h = Inr res \<and> BIGM / 2 \<le> cost_of res)"
  shows "grasp_loop clk rnd d C s p h alpha L_max tlim st0 its st = Inr st' \<Longrightarrow>
    best_y st' = best_y st \<and> best_cost st' = best_cost st \<and>
    log_convergencia st' = log_convergencia st"
proof (induction its arbitrary: st)
  case Nil
  then show ?case by simp
next
  case (Cons it its)
  have no: False
    if g: "greedy_randomized_construction rnd (rk st) d C s p h alpha
        (min L_max (int (length d))) = Inr (yc, r1)"
      and dc: "decode_solution yc d C s p h = Inr res" and c: "cost_of res < BIGM / 2"
    for yc r1 res
  proof -
    have "length yc = length d"
      using greedy_result[OF assms(1-6), of rnd "rk st" "min L_max (int (length d))"] g by auto
    then show False using inf dc c by fastforce
  qed
  from Cons.prems show ?case
  proof (cases rule: grasp_loop_Cons)
    case (stop k1)
    then show ?thesis by simp
  next
    case (skip k1 yc r1 res)
    from Cons.IH[OF skip(5)] show ?thesis by simp
  next
    case (keep k1 yc r1 res y cost k2)
    then show ?thesis using no by blast
  next
    case (improve k1 yc r1 res y cost k2)
    then show ?thesis using no by blast
  qed
qed

lemma decode_short_capacity:
  assumes "length y = length d" "length C = length d" "length s = length d"
    "length p = length d" "length h = length d"
    and "\<forall>c\<in>set C. 0 \<le> c" "sum_list C + TOL < sum_list d"
  shows "\<exists>c. decode_solution y d C s p h = Inr (None, None, c) \<and> BIGM \<le> c"
proof -
  obtain X R where XR: "spec_backward y d C = (X, R)" by (cases "spec_backward y d C")
  have "sum_list X + R = sum_list d"
    using spec_backward_conservation[OF assms(1,2)] XR by simp
  moreover have "sum_list X \<le> sum_list C"
    using spec_backward_le_cap[OF assms(1,2,6)] XR by simp
  ultimately have R: "TOL < R" using assms(7) by simp
  then have "0 \<le> R * PENALTY" by (simp add: TOL_def PENALTY_def)
  then show ?thesis
    using decode_solution_spec[OF assms(1-5)] XR R by (simp add: spec_decode_def)
qed

lemma grasp_Inr:
  assumes "grasp clk rnd d C s p h max_iter alpha L_max tlim = Inr (yb, X, I, bc, lg)"
  obtains r st c where
    "decode_solution (replicate (length d) 1) d C s p h = Inr r"
    "grasp_loop clk rnd d C s p h alpha L_max tlim (clk 0) [0..<nat max_iter]
       \<lparr>best_y = replicate (length d) 1, best_cost = cost_of r,
        log_convergencia = [(clk 1 - clk 0 + 1 / 10 ^ 6, cost_of r)], rk = 0, ck = 2\<rparr> = Inr st"
    "decode_solution (best_y st) d C s p h = Inr (X, I, c)"
    "yb = best_y st" "bc = best_cost st" "lg = log_convergencia st"
proof -
  obtain r where r: "decode_solution (replicate (length d) 1) d C s p h = Inr r"
    using assms by (cases "decode_solution (replicate (length d) 1) d C s p h")
      (simp_all add: grasp_def Let_def)
  let ?st = "\<lparr>best_y = replicate (length d) 1, best_cost = cost_of r,
        log_convergencia = [(clk 1 - clk 0 + 1 / 10 ^ 6, cost_of r)], rk = 0, ck = 2\<rparr>"
  obtain st where st: "grasp_loop clk rnd d C s p h alpha L_max tlim (clk 0) [0..<nat max_iter] ?st = Inr st"
    using assms r
    by (cases "grasp_loop clk rnd d C s p h alpha L_max tlim (clk 0) [0..<nat max_iter] ?st")
      (simp_all add: grasp_def Let_def)
  obtain X' I' c where f: "decode_solution (best_y st) d C s p h = Inr (X', I', c)"
    using assms r st
    by (cases "decode_solution (best_y st) d C s p h") (auto simp: grasp_def Let_def)
  have "X' = X" "I' = I" "yb = best_y st" "bc = best_cost st" "lg = log_convergencia st"
    using assms r st f by (simp_all add: grasp_def Let_def)
  then show thesis using that r st f by simp
qed

lemma driver_inv_init:
  assumes "decode_solution y d C s p h = Inr r"
  shows "driver_inv d C s p h
     \<lparr>best_y = y, best_cost = cost_of r, log_convergencia = [(t, cost_of r)], rk = a, ck = b\<rparr>"
  using assms by (simp add: driver_inv_def)

lemma grasp_result:
  assumes "grasp clk rnd d C s p h max_iter alpha L_max tlim = Inr (yb, X, I, bc, lg)"
  shows "decode_solution yb d C s p h = Inr (X, I, bc)"
    and "lg \<noteq> []"
    and "\<exists>r. decode_solution (replicate (length d) 1) d C s p h = Inr r \<and>
           hd lg = (clk 1 - clk 0 + 1 / 10 ^ 6, cost_of r)"
    and "sorted_wrt (>) (map snd lg)"
    and "snd (last lg) = bc"
proof -
  from assms obtain r st c where
    r: "decode_solution (replicate (length d) 1) d C s p h = Inr r" and
    st: "grasp_loop clk rnd d C s p h alpha L_max tlim (clk 0) [0..<nat max_iter]
       \<lparr>best_y = replicate (length d) 1, best_cost = cost_of r,
        log_convergencia = [(clk 1 - clk 0 + 1 / 10 ^ 6, cost_of r)], rk = 0, ck = 2\<rparr> = Inr st" and
    f: "decode_solution (best_y st) d C s p h = Inr (X, I, c)" and
    e: "yb = best_y st" "bc = best_cost st" "lg = log_convergencia st"
    by (rule grasp_Inr)
  note inv = grasp_loop_inv[OF st driver_inv_init[OF r]]
  then have i: "driver_inv d C s p h st" by simp
  show "decode_solution yb d C s p h = Inr (X, I, bc)"
    using i f e by (auto simp: driver_inv_def cost_of_def)
  show "lg \<noteq> []" using i e by (simp add: driver_inv_def)
  show "sorted_wrt (>) (map snd lg)" using i e by (simp add: driver_inv_def)
  show "snd (last lg) = bc" using i e by (simp add: driver_inv_def)
  show "\<exists>r. decode_solution (replicate (length d) 1) d C s p h = Inr r \<and>
           hd lg = (clk 1 - clk 0 + 1 / 10 ^ 6, cost_of r)"
    using inv r e by simp
qed

lemma grasp_times:
  assumes "grasp clk rnd d C s p h max_iter alpha L_max tlim = Inr (yb, X, I, bc, lg)"
    and "mono clk"
  shows "sorted (map fst (tl lg))"
    and "\<forall>t\<in>set (map fst (tl lg)). clk 1 - clk 0 \<le> t"
proof -
  from assms(1) obtain r st c where
    st: "grasp_loop clk rnd d C s p h alpha L_max tlim (clk 0) [0..<nat max_iter]
       \<lparr>best_y = replicate (length d) 1, best_cost = cost_of r,
        log_convergencia = [(clk 1 - clk 0 + 1 / 10 ^ 6, cost_of r)], rk = 0, ck = 2\<rparr> = Inr st" and
    e: "lg = log_convergencia st"
    by (rule grasp_Inr)
  have "times_ok clk (clk 0) \<lparr>best_y = replicate (length d) 1, best_cost = cost_of r,
        log_convergencia = [(clk 1 - clk 0 + 1 / 10 ^ 6, cost_of r)], rk = 0, ck = 2\<rparr>"
    by (simp add: times_ok_def)
  from grasp_loop_times[OF assms(2) st this] e
  show "sorted (map fst (tl lg))" "\<forall>t\<in>set (map fst (tl lg)). clk 1 - clk 0 \<le> t"
    by (simp_all add: times_ok_def)
qed

lemma grasp_loop_best_cost:
  "grasp_loop clk rnd d C s p h alpha L_max tlim st0 its st = Inr st' \<Longrightarrow>
   best_cost st' \<le> best_cost st"
proof (induction its arbitrary: st)
  case Nil
  then show ?case by simp
next
  case (Cons it its)
  from Cons.prems show ?case
  proof (cases rule: grasp_loop_Cons)
    case (stop k1)
    then show ?thesis by simp
  next
    case (skip k1 yc r1 res)
    from Cons.IH[OF skip(5)] show ?thesis by simp
  next
    case (keep k1 yc r1 res y cost k2)
    from Cons.IH[OF keep(7)] show ?thesis by simp
  next
    case (improve k1 yc r1 res y cost k2)
    from Cons.IH[OF improve(7)] improve(6) show ?thesis by simp
  qed
qed

lemma grasp_total:
  assumes "length C = length d" "length s = length d" "length p = length d"
    "length h = length d" "\<forall>x\<in>set d. 0 \<le> x" "0 \<le> alpha"
  shows "\<exists>yb X I bc lg. grasp clk rnd d C s p h max_iter alpha L_max tlim = Inr (yb, X, I, bc, lg)"
proof -
  have l1: "length (replicate (length d) (1::int)) = length d" by simp
  obtain r where r: "decode_solution (replicate (length d) 1) d C s p h = Inr r"
    using decode_solution_total[OF l1 assms(1-4)] by blast
  let ?st = "\<lparr>best_y = replicate (length d) 1, best_cost = cost_of r,
        log_convergencia = [(clk 1 - clk 0 + 1 / 10 ^ 6, cost_of r)], rk = 0, ck = 2\<rparr>"
  have "length (best_y ?st) = length d" by simp
  from grasp_loop_total[OF assms this] obtain st where
    st: "grasp_loop clk rnd d C s p h alpha L_max tlim (clk 0) [0..<nat max_iter] ?st = Inr st"
    and ly: "length (best_y st) = length d" by blast
  obtain X I c where f: "decode_solution (best_y st) d C s p h = Inr (X, I, c)"
    using decode_solution_total[OF ly assms(1-4)] by (metis prod_cases3)
  show ?thesis using r st f by (simp add: grasp_def Let_def)
qed

section \<open>A run of the driver\<close>

text \<open>
  Two periods of demand 1, capacity 2 and setup cost 5, no other costs; one iteration,
  \<open>alpha = 0\<close>, no time limit. The constructor picks the lot of both periods, local
  search finds nothing better, and the driver logs a second sample.
\<close>

lemma greedy_example:
  "greedy_randomized_construction first_choice 0 [1, 1] [2, 2] [5, 5] [0, 0] [0, 0] 0 2
     = Inr ([1, 0], 1)"
proof -
  have ch: "random_choice first_choice 0
      (RCL_of 0 [(1::nat, 5 / (1 + 1 / 10 ^ 9) :: real), (2, 5 / (2 + 1 / 10 ^ 9))]) = Inr (2, 1)"
    by (simp add: random_choice_def RCL_of_def thresh_of_def first_choice_def)
  have "gr_loop first_choice [1, 1] [2, 2] [5, 5] [0, 0] [0, 0] 0 2 ([0, 0], 0, 0)
      = gr_loop first_choice [1, 1] [2, 2] [5, 5] [0, 0] [0, 0] 0 2 ([0, 0][0 := 1], 0 + 2, 1)"
    by (rule gr_loop_choose[OF _ candidates_at_example _ ch]) simp_all
  also have "\<dots> = Inr ([1, 0], 1)"
    by (subst gr_loop.simps) simp
  finally show ?thesis
    by (simp add: greedy_randomized_construction_def numeral_2_eq_2)
qed

lemma decode_example_11:
  "decode_solution [1, 1] [1, 1] [2, 2] [5, 5] [0, 0] [0, 0] = Inr (Some [1, 1], Some [0, 0], 10)"
  by (simp add: decode_solution_def upt_rec TOL_def)

lemma decode_example_10:
  "decode_solution [1, 0] [1, 1] [2, 2] [5, 5] [0, 0] [0, 0] = Inr (Some [2, 0], Some [1, 0], 5)"
  by (simp add: decode_solution_def upt_rec TOL_def)

lemma decode_example_00:
  "decode_solution [0, 0] [1, 1] [2, 2] [5, 5] [0, 0] [0, 0] = Inr (None, None, BIGM + 2 * PENALTY)"
  by (simp add: decode_solution_def upt_rec TOL_def)

lemma sweep_example:
  "sweep clk [1, 1] [2, 2] [5, 5] [0, 0] [0, 0] None st0 [0..<length [1, 1 :: real]] ([1, 0], 5, k)
     = Inr ([1, 0], 5, False, k)"
  by (simp add: upt_rec time_up_def decode_example_00 decode_example_11 cost_of_def
      BIGM_def PENALTY_def)

lemma local_search_example:
  "local_search clk k [1, 0] [1, 1] [2, 2] [5, 5] [0, 0] [0, 0] None (Some st0)
     = Inr ([1, 0], 5, k)"
proof -
  have "ls_loop clk [1, 1] [2, 2] [5, 5] [0, 0] [0, 0] None st0 ([1, 0], 5, k)
      = Inr ([1, 0], 5, k)"
    by (subst ls_loop.simps)
      (simp only: time_up_def option.case prod.case bool.case sweep_example sum.case if_False)
  then show ?thesis
    by (simp add: local_search_def decode_example_10 cost_of_def)
qed

lemma grasp_example:
  "grasp frozen_clock first_choice [1, 1] [2, 2] [5, 5] [0, 0] [0, 0] 1 0 2 None
     = Inr ([1, 0], Some [2, 0], Some [1, 0], 5, [(1 / 10 ^ 6, 10), (0, 5)])"
  using greedy_example
  by (simp add: grasp_def Let_def decode_example_11 decode_example_10 cost_of_def
      time_up_def local_search_example frozen_clock_def BIGM_def numeral_2_eq_2)

lemma mono_frozen_clock: "mono frozen_clock"
  by (simp add: mono_def frozen_clock_def)

section \<open>Claims about local search and the driver\<close>

text \<open>
  Claim C5. For every instance (lists of length \<open>T\<close>, non-negative demand, data of
  magnitude at most \<open>2^100\<close>) and every choice of the parameters with \<open>alpha \<ge> 0\<close>,
  whether or not a feasible solution is found, the driver raises nothing and returns
  \<open>(best_y, X, I, best_cost, log)\<close>: infeasibility is a penalised score and never an
  exception. The feasibility flag its caller computes is exactly
  \<open>best_cost < BIGM / 2\<close>.
\<close>

theorem grasp_always_returns:
  assumes "length C = length d" "length s = length d" "length p = length d"
    "length h = length d" "\<forall>x\<in>set d. 0 \<le> x"
    and "moderate d" "moderate s" "moderate p" "moderate h"
    and "0 \<le> alpha"
  shows "\<exists>yb X I bc lg. grasp clk rnd d C s p h max_iter alpha L_max tlim = Inr (yb, X, I, bc, lg)
     \<and> factivel (grasp clk rnd d C s p h max_iter alpha L_max tlim) = Inr (bc < BIGM / 2)"
proof -
  from grasp_total[OF assms(1-5,10)] obtain yb X I bc lg where
    "grasp clk rnd d C s p h max_iter alpha L_max tlim = Inr (yb, X, I, bc, lg)" by blast
  then show ?thesis by (simp add: factivel_def)
qed

theorem grasp_always_returns_witness:
  "\<exists>yb X I bc lg.
     grasp frozen_clock first_choice [10, 10, 10] [1, 1, 1] [5, 5, 5] [1, 1, 1] [1, 1, 1] 3 (3 / 10) 10
       (Some 60) = Inr (yb, X, I, bc, lg)
     \<and> factivel (grasp frozen_clock first_choice [10, 10, 10] [1, 1, 1] [5, 5, 5] [1, 1, 1]
          [1, 1, 1] 3 (3 / 10) 10 (Some 60)) = Inr (bc < BIGM / 2)"
  by (rule grasp_always_returns) (simp_all add: moderate_def)

text \<open>
  Claim C6, as stated: total demand above total capacity makes every setup vector
  decode to a penalised score. It fails inside the tolerance: an excess of \<open>2^-30\<close> is
  accepted by both tests of the decoder.
\<close>

theorem tolerance_counterexample:
  "sum_list [1 :: real] < sum_list [1 + 1 / 2 ^ 30 :: real] \<and>
   decode_solution [1] [1 + 1 / 2 ^ 30] [1] [0] [0] [0]
     = Inr (Some [1], Some [- (1 / 2 ^ 30)], 0)"
  by (simp add: decode_solution_def TOL_def)

text \<open>
  Claim C6, amended: for every instance (lists of length \<open>T\<close>; integer-valued,
  non-negative demand and capacity; total demand at most \<open>2^52\<close>; costs of magnitude
  at most \<open>2^100\<close>) whose total demand exceeds its total capacity by more than the
  tolerance \<open>1e-6\<close>, the decoder returns a penalised score \<open>\<ge> BIGM\<close> with absent \<open>X\<close>
  and \<open>I\<close> for every setup vector of length \<open>T\<close>, and the driver (with \<open>alpha \<ge> 0\<close>)
  returns, with absent plan, a best cost \<open>\<ge> BIGM\<close> and the feasibility flag false.
\<close>

theorem short_capacity_infeasible:
  assumes "length C = length d" "length s = length d" "length p = length d"
    "length h = length d" "\<forall>x\<in>set d. 0 \<le> x" "\<forall>c\<in>set C. 0 \<le> c" "0 \<le> alpha"
    and "sum_list C + TOL < sum_list d"
    and "integral d" "integral C" "sum_list d \<le> 2 ^ 52"
    and "moderate s" "moderate p" "moderate h"
  shows "(\<forall>y. length y = length d \<longrightarrow>
            (\<exists>c. decode_solution y d C s p h = Inr (None, None, c) \<and> BIGM \<le> c))
     \<and> (\<exists>yb bc lg. grasp clk rnd d C s p h max_iter alpha L_max tlim = Inr (yb, None, None, bc, lg)
            \<and> BIGM \<le> bc
            \<and> factivel (grasp clk rnd d C s p h max_iter alpha L_max tlim) = Inr False)"
proof -
  have dec: "\<exists>c. decode_solution y d C s p h = Inr (None, None, c) \<and> BIGM \<le> c"
    if "length y = length d" for y
    using decode_short_capacity[OF that assms(1-4,6,8)] .
  have half: "BIGM / 2 \<le> c" if "BIGM \<le> c" for c
    using that by (simp add: BIGM_def)
  have inf: "\<forall>y. length y = length d \<longrightarrow>
      (\<exists>res. decode_solution y d C s p h = Inr res \<and> BIGM / 2 \<le> cost_of res)"
  proof (intro allI impI)
    fix y :: "int list" assume "length y = length d"
    from dec[OF this] obtain c where "decode_solution y d C s p h = Inr (None, None, c)" "BIGM \<le> c"
      by blast
    then show "\<exists>res. decode_solution y d C s p h = Inr res \<and> BIGM / 2 \<le> cost_of res"
      using half by (simp add: cost_of_def)
  qed
  obtain yb X I bc lg where
    g: "grasp clk rnd d C s p h max_iter alpha L_max tlim = Inr (yb, X, I, bc, lg)"
    using grasp_total[OF assms(1-5,7)] by blast
  from g obtain r st c where
    r: "decode_solution (replicate (length d) 1) d C s p h = Inr r" and
    st: "grasp_loop clk rnd d C s p h alpha L_max tlim (clk 0) [0..<nat max_iter]
       \<lparr>best_y = replicate (length d) 1, best_cost = cost_of r,
        log_convergencia = [(clk 1 - clk 0 + 1 / 10 ^ 6, cost_of r)], rk = 0, ck = 2\<rparr> = Inr st" and
    f: "decode_solution (best_y st) d C s p h = Inr (X, I, c)" and
    e: "yb = best_y st" "bc = best_cost st"
    by (rule grasp_Inr)
  from grasp_loop_all_infeasible[OF assms(1-5,7) inf st]
  have same: "best_y st = replicate (length d) 1" "best_cost st = cost_of r" by simp_all
  obtain c1 where c1: "decode_solution (replicate (length d) 1) d C s p h = Inr (None, None, c1)"
    "BIGM \<le> c1" using dec[of "replicate (length d) 1"] by auto
  have "X = None" "I = None" "bc = c1"
    using f same r c1 e by (simp_all add: cost_of_def)
  then have "grasp clk rnd d C s p h max_iter alpha L_max tlim = Inr (yb, None, None, bc, lg)"
    "BIGM \<le> bc" "\<not> bc < BIGM / 2"
    using g c1(2) half[OF c1(2)] by simp_all
  then show ?thesis using dec by (auto simp: factivel_def)
qed

theorem short_capacity_infeasible_witness:
  "(\<exists>c. decode_solution [1, 0, 1] [10, 10, 10] [1, 1, 1] [5, 5, 5] [1, 1, 1] [1, 1, 1]
          = Inr (None, None, c) \<and> BIGM \<le> c)
   \<and> (\<exists>yb bc lg. grasp frozen_clock first_choice [10, 10, 10] [1, 1, 1] [5, 5, 5] [1, 1, 1]
          [1, 1, 1] 3 (3 / 10) 10 (Some 60) = Inr (yb, None, None, bc, lg)
        \<and> BIGM \<le> bc
        \<and> factivel (grasp frozen_clock first_choice [10, 10, 10] [1, 1, 1] [5, 5, 5] [1, 1, 1]
             [1, 1, 1] 3 (3 / 10) 10 (Some 60)) = Inr False)"
proof -
  have h: "sum_list [1, 1, 1 :: real] + TOL < sum_list [10, 10, 10 :: real]"
    by (simp add: TOL_def)
  have l: "length [1, 0, 1 :: int] = length [10, 10, 10 :: real]" by simp
  note t = short_capacity_infeasible[of "[1, 1, 1]" "[10, 10, 10]" "[5, 5, 5]" "[1, 1, 1]"
      "[1, 1, 1]" "3 / 10" frozen_clock first_choice 3 10 "Some 60", OF _ _ _ _ _ _ _ h]
  have t': "(\<forall>y. length y = length [10, 10, 10 :: real] \<longrightarrow>
            (\<exists>c. decode_solution y [10, 10, 10] [1, 1, 1] [5, 5, 5] [1, 1, 1] [1, 1, 1]
               = Inr (None, None, c) \<and> BIGM \<le> c))
     \<and> (\<exists>yb bc lg. grasp frozen_clock first_choice [10, 10, 10] [1, 1, 1] [5, 5, 5] [1, 1, 1]
          [1, 1, 1] 3 (3 / 10) 10 (Some 60) = Inr (yb, None, None, bc, lg)
        \<and> BIGM \<le> bc
        \<and> factivel (grasp frozen_clock first_choice [10, 10, 10] [1, 1, 1] [5, 5, 5] [1, 1, 1]
             [1, 1, 1] 3 (3 / 10) 10 (Some 60)) = Inr False)"
    by (rule t) (simp_all add: integral_def moderate_def)
  from conjunct1[OF t', rule_format, OF l] conjunct2[OF t'] show ?thesis by (rule conjI)
qed

text \<open>
  Claim C8, as stated: the log is non-decreasing in elapsed time. It fails between the
  first two samples: the first time is shifted by \<open>1e-6\<close>, the others are not, so an
  improvement logged before the clock has advanced by \<open>1e-6\<close> carries a smaller time.
\<close>

theorem log_time_counterexample:
  "grasp frozen_clock first_choice [1, 1] [2, 2] [5, 5] [0, 0] [0, 0] 1 0 2 None
     = Inr ([1, 0], Some [2, 0], Some [1, 0], 5, [(1 / 10 ^ 6, 10), (0, 5)]) \<and>
   mono frozen_clock \<and>
   \<not> sorted (map fst [(1 / 10 ^ 6 :: real, 10 :: real), (0, 5)])"
  using grasp_example mono_frozen_clock by simp

text \<open>
  Claim C8, amended: every log the driver returns is non-empty; its first sample holds
  the cost of the all-ones vector (at the time of the second clock reading, shifted by
  \<open>1e-6\<close>); its costs decrease strictly, and the last is the returned \<open>best_cost\<close>; for
  a clock that never runs backwards the times from the second sample on are
  non-decreasing and none is below the first sample's time minus \<open>1e-6\<close>. And the
  loop never increases \<open>best_cost\<close>, from any state over any number of iterations.
\<close>

theorem convergence_log_shape:
  "(grasp clk rnd d C s p h max_iter alpha L_max tlim = Inr (yb, X, I, bc, lg) \<longrightarrow>
      lg \<noteq> [] \<and>
      (\<exists>r. decode_solution (replicate (length d) 1) d C s p h = Inr r \<and>
           hd lg = (clk 1 - clk 0 + 1 / 10 ^ 6, cost_of r)) \<and>
      sorted_wrt (>) (map snd lg) \<and> snd (last lg) = bc \<and>
      (mono clk \<longrightarrow> sorted (map fst (tl lg)) \<and>
         (\<forall>t\<in>set (map fst (tl lg)). fst (hd lg) - 1 / 10 ^ 6 \<le> t)))
   \<and> (grasp_loop clk rnd d C s p h alpha L_max tlim st0 its st = Inr st' \<longrightarrow>
        best_cost st' \<le> best_cost st)"
proof (intro conjI impI)
  assume g: "grasp clk rnd d C s p h max_iter alpha L_max tlim = Inr (yb, X, I, bc, lg)"
  note r = grasp_result[OF g]
  show "lg \<noteq> []" by (rule r(2))
  show hd: "\<exists>r. decode_solution (replicate (length d) 1) d C s p h = Inr r \<and>
           hd lg = (clk 1 - clk 0 + 1 / 10 ^ 6, cost_of r)" by (rule r(3))
  show "sorted_wrt (>) (map snd lg)" by (rule r(4))
  show "snd (last lg) = bc" by (rule r(5))
  assume m: "mono clk"
  show "sorted (map fst (tl lg))" by (rule grasp_times(1)[OF g m])
  show "\<forall>t\<in>set (map fst (tl lg)). fst (hd lg) - 1 / 10 ^ 6 \<le> t"
    using grasp_times(2)[OF g m] hd by auto
next
  assume "grasp_loop clk rnd d C s p h alpha L_max tlim st0 its st = Inr st'"
  then show "best_cost st' \<le> best_cost st" by (rule grasp_loop_best_cost)
qed

theorem convergence_log_shape_witness:
  "grasp frozen_clock first_choice [1, 1] [2, 2] [5, 5] [0, 0] [0, 0] 1 0 2 None
     = Inr ([1, 0], Some [2, 0], Some [1, 0], 5, [(1 / 10 ^ 6, 10), (0, 5)]) \<and>
   mono frozen_clock \<and>
   sorted_wrt (>) (map snd [(1 / 10 ^ 6 :: real, 10 :: real), (0, 5)]) \<and>
   snd (last [(1 / 10 ^ 6 :: real, 10 :: real), (0, 5)]) = (5 :: real) \<and>
   sorted (map fst (tl [(1 / 10 ^ 6 :: real, 10 :: real), (0, 5)]))"
proof -
  note t = convergence_log_shape[of frozen_clock first_choice "[1, 1]" "[2, 2]" "[5, 5]"
      "[0, 0]" "[0, 0]" 1 0 2 None "[1, 0]" "Some [2, 0]" "Some [1, 0]" 5
      "[(1 / 10 ^ 6, 10), (0, 5)]"]
  note a = conjunct1[OF t, rule_format, OF grasp_example]
  have "sorted_wrt (>) (map snd [(1 / 10 ^ 6 :: real, 10 :: real), (0, 5)])" using a by blast
  moreover have "snd (last [(1 / 10 ^ 6 :: real, 10 :: real), (0, 5)]) = (5 :: real)" using a by blast
  moreover have "sorted (map fst (tl [(1 / 10 ^ 6 :: real, 10 :: real), (0, 5)]))"
    using a mono_frozen_clock by blast
  ultimately show ?thesis using grasp_example mono_frozen_clock by blast
qed



end
